theory Spec2Isabelle
  imports Main "HOL-Library.Word"
begin

unbundle bit_operations_syntax

section \<open>The persistent map of src/compiler/persistent-map.h\<close>

text \<open>
  The embedding follows the header function by function.  A pointer
  \<^verbatim>\<open>const FocusedTree*\<close> is an optional address (\<open>None\<close> is \<^verbatim>\<open>nullptr\<close>), the
  zone is the list of the nodes allocated so far (an address is an index, allocation
  appends), and every function that dereferences a pointer, indexes a bitset or an
  array, or reaches \<^verbatim>\<open>UNREACHABLE()\<close> returns an option: \<open>None\<close> stands for
  undefined behaviour or an abort of the C++ code.  A member \<^verbatim>\<open>name_\<close> of a class is
  written with a one-letter tag of its class instead of the trailing underscore
  (\<open>tree_m\<close> for \<^verbatim>\<open>PersistentMap::tree_\<close>, \<open>level_i\<close> for \<^verbatim>\<open>iterator::level_\<close>), and
  the fields \<^verbatim>\<open>length\<close> and \<^verbatim>\<open>more\<close> of \<^verbatim>\<open>FocusedTree\<close> are \<open>length_t\<close> and \<open>more_t\<close>.
\<close>

subsection \<open>HashValue\<close>

type_synonym size_t = "64 word"

type_synonym HashValue = "32 word"

definition kHashBits :: nat where
  "kHashBits = 32"

datatype Bit = kLeft | kRight

text \<open>\<^verbatim>\<open>explicit HashValue(size_t hash) : bits_(hash)\<close>: a \<^verbatim>\<open>std::bitset<32>\<close> keeps the
  low 32 bits.\<close>

definition HashValue :: "size_t \<Rightarrow> HashValue" where
  "HashValue hash = ucast hash"

text \<open>\<^verbatim>\<open>operator[]\<close>: \<^verbatim>\<open>bits_[kHashBits - pos - 1] ? kRight : kLeft\<close>; a position outside
  the bitset is undefined behaviour.\<close>

definition hash_at :: "HashValue \<Rightarrow> nat \<Rightarrow> Bit option" where
  "hash_at h pos =
     (if pos < kHashBits then Some (if bit h (kHashBits - pos - 1) then kRight else kLeft)
      else None)"

text \<open>\<^verbatim>\<open>operator<\<close>: \<^verbatim>\<open>bits_.to_ulong() < other.bits_.to_ulong()\<close>.\<close>

definition hash_less :: "HashValue \<Rightarrow> HashValue \<Rightarrow> bool" where
  "hash_less a b = (unat a < unat b)"

subsection \<open>FocusedTree, the zone and the map handle\<close>

type_synonym ptr = "nat option"

record ('k, 'v) FocusedTree =
  key_value :: "'k \<times> 'v"
  length_t :: nat
  key_hash :: HashValue
  more_t :: "('k \<times> 'v) list option"
  path_array :: "ptr list"

type_synonym ('k, 'v) Zone = "('k, 'v) FocusedTree list"

record 'v PersistentMap =
  tree_m :: ptr
  def_value_m :: 'v

text \<open>Dereferencing a pointer into the zone.\<close>

definition zone_at :: "('k, 'v) Zone \<Rightarrow> nat \<Rightarrow> ('k, 'v) FocusedTree option" where
  "zone_at z a = (if a < length z then Some (z ! a) else None)"

text \<open>\<^verbatim>\<open>FocusedTree::path(i)\<close>, with its \<^verbatim>\<open>DCHECK(i < length)\<close>.\<close>

definition path_at :: "('k, 'v) FocusedTree \<Rightarrow> nat \<Rightarrow> ptr option" where
  "path_at t i =
     (if i < length_t t \<and> i < length (path_array t) then Some (path_array t ! i) else None)"

text \<open>Modelled from the spec: \<^verbatim>\<open>ZoneMap<Key, Value>\<close> (src/zone/zone-containers.h, a
  \<^verbatim>\<open>std::map\<close>) is "any key-ordered associative structure ... supporting copy, insert,
  and ordered iteration": an association list kept strictly sorted by key.
  \<open>ZoneMap_find\<close> is \<^verbatim>\<open>find\<close>, \<open>ZoneMap_set m k v\<close> is \<^verbatim>\<open>(*m)[k] = v\<close>, and an iterator
  of the map is an index into the list.\<close>

fun ZoneMap_find :: "('k \<times> 'v) list \<Rightarrow> 'k \<Rightarrow> 'v option" where
  "ZoneMap_find [] k = None"
| "ZoneMap_find ((k', v') # m) k = (if k = k' then Some v' else ZoneMap_find m k)"

fun ZoneMap_set :: "('k::linorder \<times> 'v) list \<Rightarrow> 'k \<Rightarrow> 'v \<Rightarrow> ('k \<times> 'v) list" where
  "ZoneMap_set [] k v = [(k, v)]"
| "ZoneMap_set ((k', v') # m) k v =
     (if k < k' then (k, v) # (k', v') # m
      else if k = k' then (k, v) # m
      else (k', v') # ZoneMap_set m k v)"

subsection \<open>FindHash, GetFocusedValue and Get\<close>

text \<open>The inner loop \<^verbatim>\<open>while ((hash ^ tree->key_hash)[level] == 0) ++level;\<close> on the
  xor \<open>x\<close> of the two hashes.\<close>

function FindHash_skip :: "HashValue \<Rightarrow> nat \<Rightarrow> nat option" where
  "FindHash_skip x level =
     (case hash_at x level of
        None \<Rightarrow> None
      | Some kRight \<Rightarrow> Some level
      | Some kLeft \<Rightarrow> FindHash_skip x (level + 1))"
  by pat_completeness auto

termination
  by (relation "measure (\<lambda>(x, level). kHashBits - level)")
     (auto simp: hash_at_def split: if_splits)

declare FindHash_skip.simps [simp del]

lemma FindHash_skip_range:
  "FindHash_skip x level = Some lv \<Longrightarrow> level \<le> lv \<and> lv < kHashBits"
proof (induction x level rule: FindHash_skip.induct)
  case (1 x level)
  show ?case
  proof (cases "hash_at x level")
    case None
    with "1.prems" show ?thesis by (simp add: FindHash_skip.simps [of x level])
  next
    case (Some b)
    show ?thesis
    proof (cases b)
      case kLeft
      with Some "1.prems" have "FindHash_skip x (level + 1) = Some lv"
        by (simp add: FindHash_skip.simps [of x level])
      with "1.IH" [OF Some kLeft] show ?thesis by simp
    next
      case kRight
      with Some "1.prems" show ?thesis
        by (auto simp: FindHash_skip.simps [of x level] hash_at_def split: if_splits)
    qed
  qed
qed

function FindHash_loop ::
  "('k, 'v) Zone \<Rightarrow> HashValue \<Rightarrow> ptr \<Rightarrow> nat \<Rightarrow> ptr option" where
  "FindHash_loop z hash tree level =
     (case tree of
        None \<Rightarrow> Some None
      | Some a \<Rightarrow>
          (case zone_at z a of
             None \<Rightarrow> None
           | Some t \<Rightarrow>
               if hash = key_hash t then Some tree
               else
                 (case FindHash_skip (hash XOR key_hash t) level of
                    None \<Rightarrow> None
                  | Some lv \<Rightarrow>
                      (case (if lv < length_t t then path_at t lv else Some None) of
                         None \<Rightarrow> None
                       | Some child \<Rightarrow> FindHash_loop z hash child (lv + 1)))))"
  by pat_completeness auto

termination
  by (relation "measure (\<lambda>(z, hash, tree, level). kHashBits + 1 - level)")
     (auto dest!: FindHash_skip_range)

declare FindHash_loop.simps [simp del]

definition FindHash :: "('k, 'v) Zone \<Rightarrow> 'v PersistentMap \<Rightarrow> HashValue \<Rightarrow> ptr option" where
  "FindHash z m hash = FindHash_loop z hash (tree_m m) 0"

text \<open>The overload that records the path.  \<open>FindHash_record\<close> is its inner loop
  (it writes \<^verbatim>\<open>(*path)[level]\<close> while the hashes agree), \<open>FindHash_copy\<close> the final loop
  over the rest of the found node's side pointers.  The result is the returned node,
  the path array and \<^verbatim>\<open>*length\<close>.\<close>

function FindHash_record ::
  "HashValue \<Rightarrow> ('k, 'v) FocusedTree \<Rightarrow> nat \<Rightarrow> ptr list \<Rightarrow> (nat \<times> ptr list) option" where
  "FindHash_record x t level path =
     (case hash_at x level of
        None \<Rightarrow> None
      | Some kRight \<Rightarrow> Some (level, path)
      | Some kLeft \<Rightarrow>
          (case (if level < length_t t then path_at t level else Some None) of
             None \<Rightarrow> None
           | Some p \<Rightarrow> FindHash_record x t (level + 1) (path[level := p])))"
  by pat_completeness auto

termination
  by (relation "measure (\<lambda>(x, t, level, path). kHashBits - level)")
     (auto simp: hash_at_def split: if_splits)

declare FindHash_record.simps [simp del]

lemma FindHash_record_range:
  "FindHash_record x t level path = Some (lv, path') \<Longrightarrow> level \<le> lv \<and> lv < kHashBits"
proof (induction x t level path rule: FindHash_record.induct)
  case (1 x t level path)
  show ?case
  proof (cases "hash_at x level")
    case None
    with "1.prems" show ?thesis by (simp add: FindHash_record.simps [of x t level])
  next
    case (Some b)
    show ?thesis
    proof (cases b)
      case kLeft
      with Some "1.prems" obtain p where
        p: "(if level < length_t t then path_at t level else Some None) = Some p" and
        r: "FindHash_record x t (level + 1) (path[level := p]) = Some (lv, path')"
        by (auto simp: FindHash_record.simps [of x t level] split: option.splits)
      from "1.IH" [OF Some kLeft p r] show ?thesis by simp
    next
      case kRight
      with Some "1.prems" show ?thesis
        by (auto simp: FindHash_record.simps [of x t level] hash_at_def split: if_splits)
    qed
  qed
qed

function FindHash_copy ::
  "('k, 'v) FocusedTree \<Rightarrow> nat \<Rightarrow> ptr list \<Rightarrow> (nat \<times> ptr list) option" where
  "FindHash_copy t level path =
     (if level < length_t t then
        (if level < kHashBits then
           (case path_at t level of
              None \<Rightarrow> None
            | Some p \<Rightarrow> FindHash_copy t (level + 1) (path[level := p]))
         else None)
      else Some (level, path))"
  by pat_completeness auto

termination
  by (relation "measure (\<lambda>(t, level, path). length_t t - level)") auto

declare FindHash_copy.simps [simp del]

function FindHash_path_loop ::
  "('k, 'v) Zone \<Rightarrow> HashValue \<Rightarrow> ptr \<Rightarrow> nat \<Rightarrow> ptr list \<Rightarrow> (ptr \<times> ptr list \<times> nat) option" where
  "FindHash_path_loop z hash tree level path =
     (case tree of
        None \<Rightarrow> Some (None, path, level)
      | Some a \<Rightarrow>
          (case zone_at z a of
             None \<Rightarrow> None
           | Some t \<Rightarrow>
               if hash = key_hash t then
                 (case FindHash_copy t level path of
                    None \<Rightarrow> None
                  | Some (lv, path1) \<Rightarrow> Some (tree, path1, lv))
               else
                 (case FindHash_record (hash XOR key_hash t) t level path of
                    None \<Rightarrow> None
                  | Some (lv, path1) \<Rightarrow>
                      (case (if lv < length_t t then path_at t lv else Some None) of
                         None \<Rightarrow> None
                       | Some child \<Rightarrow>
                           FindHash_path_loop z hash child (lv + 1) (path1[lv := tree])))))"
  by pat_completeness auto

termination
  by (relation "measure (\<lambda>(z, hash, tree, level, path). kHashBits + 1 - level)")
     (auto dest!: FindHash_record_range)

declare FindHash_path_loop.simps [simp del]

text \<open>The local \<^verbatim>\<open>std::array<const FocusedTree*, kHashBits> path\<close> of \<^verbatim>\<open>Add\<close> starts
  uninitialised; the model starts it with null pointers.\<close>

definition FindHash_path ::
  "('k, 'v) Zone \<Rightarrow> 'v PersistentMap \<Rightarrow> HashValue \<Rightarrow> (ptr \<times> ptr list \<times> nat) option" where
  "FindHash_path z m hash = FindHash_path_loop z hash (tree_m m) 0 (replicate kHashBits None)"

definition GetFocusedValue ::
  "('k, 'v) Zone \<Rightarrow> 'v PersistentMap \<Rightarrow> ptr \<Rightarrow> 'k \<Rightarrow> 'v option" where
  "GetFocusedValue z m tree key =
     (case tree of
        None \<Rightarrow> Some (def_value_m m)
      | Some a \<Rightarrow>
          (case zone_at z a of
             None \<Rightarrow> None
           | Some t \<Rightarrow>
               (case more_t t of
                  Some bucket \<Rightarrow>
                    (case ZoneMap_find bucket key of
                       None \<Rightarrow> Some (def_value_m m)
                     | Some v \<Rightarrow> Some v)
                | None \<Rightarrow>
                    if key = fst (key_value t) then Some (snd (key_value t))
                    else Some (def_value_m m))))"

text \<open>\<open>Hasher\<close> stands for \<^verbatim>\<open>Hasher()\<close> (\<^verbatim>\<open>base::hash<Key>\<close> by default), which is
  not part of the header.\<close>

definition Get ::
  "('k \<Rightarrow> size_t) \<Rightarrow> ('k, 'v) Zone \<Rightarrow> 'v PersistentMap \<Rightarrow> 'k \<Rightarrow> 'v option" where
  "Get Hasher z m key =
     (case FindHash z m (HashValue (Hasher key)) of
        None \<Rightarrow> None
      | Some tree \<Rightarrow> GetFocusedValue z m tree key)"

subsection \<open>Add\<close>

text \<open>\<^verbatim>\<open>explicit PersistentMap(Zone* zone, Value def_value)\<close>.\<close>

definition PersistentMap :: "'v \<Rightarrow> 'v PersistentMap" where
  "PersistentMap d = \<lparr>tree_m = None, def_value_m = d\<rparr>"

text \<open>\<open>Add\<close> returns the new handle and the zone after the allocation; on
  \<^verbatim>\<open>return *this\<close> these are the handle and the zone it was given.  The bucket \<open>more'\<close>
  (\<^verbatim>\<open>more\<close> in the source) is built as the source does: a copy of \<^verbatim>\<open>old->more\<close>, or
  the old pair, and then the new pair.  The new node takes the first \<open>len\<close> entries of
  the path; \<open>len\<close> is at most 32, so \<^verbatim>\<open>static_cast<int8_t>(length)\<close> keeps it.\<close>

definition Add ::
  "('k::linorder \<Rightarrow> size_t) \<Rightarrow> ('k, 'v) Zone \<Rightarrow> 'v PersistentMap \<Rightarrow> 'k \<Rightarrow> 'v \<Rightarrow>
     ('v PersistentMap \<times> ('k, 'v) Zone) option" where
  "Add Hasher z m key val =
     (let hash = HashValue (Hasher key) in
      case FindHash_path z m hash of
        None \<Rightarrow> None
      | Some (old, path, len) \<Rightarrow>
          (case GetFocusedValue z m old key of
             None \<Rightarrow> None
           | Some cur \<Rightarrow>
               if cur = val then Some (m, z)
               else
                 (case (case old of
                          None \<Rightarrow> Some None
                        | Some a \<Rightarrow>
                            (case zone_at z a of
                               None \<Rightarrow> None
                             | Some t \<Rightarrow>
                                 if \<not> (more_t t = None \<and> fst (key_value t) = key) then
                                   Some (Some (ZoneMap_set
                                     (case more_t t of
                                        Some bucket \<Rightarrow> bucket
                                      | None \<Rightarrow>
                                          ZoneMap_set [] (fst (key_value t)) (snd (key_value t)))
                                     key val))
                                 else Some None)) of
                    None \<Rightarrow> None
                  | Some more' \<Rightarrow>
                      Some (\<lparr>tree_m = Some (length z), def_value_m = def_value_m m\<rparr>,
                            z @ [\<lparr>key_value = (key, val), length_t = len, key_hash = hash,
                                  more_t = more', path_array = take len path\<rparr>]))))"

subsection \<open>The iterator\<close>

definition GetChild :: "('k, 'v) Zone \<Rightarrow> ptr \<Rightarrow> nat \<Rightarrow> Bit \<Rightarrow> ptr option" where
  "GetChild z tree level b =
     (case tree of
        None \<Rightarrow> None
      | Some a \<Rightarrow>
          (case zone_at z a of
             None \<Rightarrow> None
           | Some t \<Rightarrow>
               (case hash_at (key_hash t) level of
                  None \<Rightarrow> None
                | Some hb \<Rightarrow>
                    if hb = b then Some tree
                    else if level < length_t t then path_at t level
                    else Some None)))"

lemma GetChild_range: "GetChild z tree level b = Some c \<Longrightarrow> level < kHashBits"
  by (auto simp: GetChild_def hash_at_def split: option.splits if_splits)

text \<open>\<open>FindLeftmost\<close> returns the leaf, \<^verbatim>\<open>*level\<close> and \<^verbatim>\<open>*path\<close>; \<^verbatim>\<open>UNREACHABLE()\<close> is
  \<open>None\<close>.\<close>

function FindLeftmost ::
  "('k, 'v) Zone \<Rightarrow> ptr \<Rightarrow> nat \<Rightarrow> ptr list \<Rightarrow> (ptr \<times> nat \<times> ptr list) option" where
  "FindLeftmost z current level path =
     (case current of
        None \<Rightarrow> None
      | Some a \<Rightarrow>
          (case zone_at z a of
             None \<Rightarrow> None
           | Some t \<Rightarrow>
               if level < length_t t then
                 (case GetChild z current level kLeft of
                    None \<Rightarrow> None
                  | Some (Some c) \<Rightarrow>
                      (case GetChild z current level kRight of
                         None \<Rightarrow> None
                       | Some r \<Rightarrow> FindLeftmost z (Some c) (level + 1) (path[level := r]))
                  | Some None \<Rightarrow>
                      (case GetChild z current level kRight of
                         None \<Rightarrow> None
                       | Some (Some c) \<Rightarrow>
                           (case GetChild z current level kLeft of
                              None \<Rightarrow> None
                            | Some l \<Rightarrow>
                                FindLeftmost z (Some c) (level + 1) (path[level := l]))
                       | Some None \<Rightarrow> None))
               else Some (current, level, path)))"
  by pat_completeness auto

termination
  by (relation "measure (\<lambda>(z, current, level, path). kHashBits - level)")
     (auto dest!: GetChild_range)

declare FindLeftmost.simps [simp del]

record 'v iterator =
  level_i :: nat
  more_iter_i :: nat
  current_i :: ptr
  path_i :: "ptr list"
  def_value_i :: 'v

text \<open>\<^verbatim>\<open>explicit iterator(Value def_value)\<close>, which is also \<^verbatim>\<open>iterator::end\<close>: level 0 and
  a null current node.  The members it leaves uninitialised (\<^verbatim>\<open>more_iter_\<close>,
  \<^verbatim>\<open>path_\<close>) are 0 and null pointers in the model.\<close>

definition iterator_end :: "'v \<Rightarrow> 'v iterator" where
  "iterator_end d =
     \<lparr>level_i = 0, more_iter_i = 0, current_i = None, path_i = replicate kHashBits None,
      def_value_i = d\<rparr>"

definition is_end :: "'v iterator \<Rightarrow> bool" where
  "is_end it = (current_i it = None)"

text \<open>\<^verbatim>\<open>iterator::operator*\<close>.\<close>

definition iterator_deref :: "('k, 'v) Zone \<Rightarrow> 'v iterator \<Rightarrow> ('k \<times> 'v) option" where
  "iterator_deref z it =
     (case current_i it of
        None \<Rightarrow> None
      | Some a \<Rightarrow>
          (case zone_at z a of
             None \<Rightarrow> None
           | Some t \<Rightarrow>
               (case more_t t of
                  Some bucket \<Rightarrow>
                    if more_iter_i it < length bucket then Some (bucket ! more_iter_i it)
                    else None
                | None \<Rightarrow> Some (key_value t))))"

definition iterator_begin :: "('k, 'v) Zone \<Rightarrow> ptr \<Rightarrow> 'v \<Rightarrow> 'v iterator option" where
  "iterator_begin z tree d =
     (case FindLeftmost z tree 0 (replicate kHashBits None) of
        None \<Rightarrow> None
      | Some (cur, lv, pth) \<Rightarrow>
          (case cur of
             None \<Rightarrow> None
           | Some a \<Rightarrow>
               (case zone_at z a of
                  None \<Rightarrow> None
                | Some t \<Rightarrow>
                    Some \<lparr>level_i = lv, more_iter_i = 0, current_i = cur, path_i = pth,
                          def_value_i = d\<rparr>)))"

text \<open>\<^verbatim>\<open>PersistentMap::begin\<close> and \<^verbatim>\<open>PersistentMap::end\<close>.\<close>

definition map_begin :: "('k, 'v) Zone \<Rightarrow> 'v PersistentMap \<Rightarrow> 'v iterator option" where
  "map_begin z m =
     (case tree_m m of
        None \<Rightarrow> Some (iterator_end (def_value_m m))
      | Some a \<Rightarrow> iterator_begin z (tree_m m) (def_value_m m))"

definition map_end :: "'v PersistentMap \<Rightarrow> 'v iterator" where
  "map_end m = iterator_end (def_value_m m)"

text \<open>The loop of \<^verbatim>\<open>operator++\<close> that climbs the path, entered after \<^verbatim>\<open>--level_\<close>:
  \<open>Some None\<close> when it reaches level 0 (the iterator becomes \<^verbatim>\<open>end\<close>), \<open>Some (Some lv)\<close>
  when it stops at level \<open>lv\<close>.\<close>

function iterator_climb :: "HashValue \<Rightarrow> ptr list \<Rightarrow> nat \<Rightarrow> nat option option" where
  "iterator_climb h path lv =
     (case hash_at h lv of
        None \<Rightarrow> None
      | Some b \<Rightarrow>
          if b = kRight \<or> path ! lv = None then
            (if lv = 0 then Some None else iterator_climb h path (lv - 1))
          else Some (Some lv))"
  by pat_completeness auto

termination
  by (relation "measure (\<lambda>(h, path, lv). lv)") auto

declare iterator_climb.simps [simp del]

text \<open>One pass through the body of the \<^verbatim>\<open>do ... while\<close> of \<^verbatim>\<open>operator++\<close>.  The boolean
  is \<open>False\<close> when the body returned (\<^verbatim>\<open>return *this\<close>) and \<open>True\<close> when it reached the
  loop condition.\<close>

definition iterator_body ::
  "('k, 'v) Zone \<Rightarrow> 'v iterator \<Rightarrow> (bool \<times> 'v iterator) option" where
  "iterator_body z it =
     (case current_i it of
        None \<Rightarrow> Some (False, it)
      | Some a \<Rightarrow>
          (case zone_at z a of
             None \<Rightarrow> None
           | Some t \<Rightarrow>
               (case (case more_t t of
                        None \<Rightarrow> Some (it, False)
                      | Some bucket \<Rightarrow>
                          if more_iter_i it < length bucket then
                            Some (it\<lparr>more_iter_i := more_iter_i it + 1\<rparr>,
                                  more_iter_i it + 1 \<noteq> length bucket)
                          else None) of
                  None \<Rightarrow> None
                | Some (it1, ret) \<Rightarrow>
                    if ret then Some (False, it1)
                    else if level_i it1 = 0 then Some (False, iterator_end (def_value_i it1))
                    else
                      (case iterator_climb (key_hash t) (path_i it1) (level_i it1 - 1) of
                         None \<Rightarrow> None
                       | Some None \<Rightarrow> Some (False, iterator_end (def_value_i it1))
                       | Some (Some lv) \<Rightarrow>
                           (case FindLeftmost z (path_i it1 ! lv) (lv + 1) (path_i it1) of
                              None \<Rightarrow> None
                            | Some (cur, lv1, pth) \<Rightarrow>
                                (case cur of
                                   None \<Rightarrow> None
                                 | Some a1 \<Rightarrow>
                                     (case zone_at z a1 of
                                        None \<Rightarrow> None
                                      | Some t1 \<Rightarrow>
                                          Some (True,
                                            it1\<lparr>level_i := lv1, current_i := cur, path_i := pth,
                                                more_iter_i :=
                                                  (case more_t t1 of
                                                     None \<Rightarrow> more_iter_i it1
                                                   | Some bucket \<Rightarrow> 0)\<rparr>))))))))"

text \<open>\<^verbatim>\<open>iterator::operator++\<close>: the body is repeated while
  \<^verbatim>\<open>(**this).second == def_value()\<close>.\<close>

partial_function (option) iterator_inc ::
  "('k, 'v) Zone \<Rightarrow> 'v iterator \<Rightarrow> 'v iterator option" where
  "iterator_inc z it =
     (case iterator_body z it of
        None \<Rightarrow> None
      | Some (again, it1) \<Rightarrow>
          if again then
            (case iterator_deref z it1 of
               None \<Rightarrow> None
             | Some kv \<Rightarrow> if snd kv = def_value_i it1 then iterator_inc z it1 else Some it1)
          else Some it1)"

declare iterator_inc.simps [code]

text \<open>\<^verbatim>\<open>iterator::operator==\<close> and \<^verbatim>\<open>iterator::operator<\<close>.\<close>

definition iterator_eq ::
  "('k, 'v) Zone \<Rightarrow> 'v iterator \<Rightarrow> 'v iterator \<Rightarrow> bool option" where
  "iterator_eq z it other =
     (if is_end it then Some (is_end other)
      else if is_end other then Some False
      else
        (case (Option.bind (current_i it) (zone_at z), Option.bind (current_i other) (zone_at z)) of
           (Some t, Some t') \<Rightarrow>
             if key_hash t \<noteq> key_hash t' then Some False
             else
               (case (iterator_deref z it, iterator_deref z other) of
                  (Some kv, Some kv') \<Rightarrow> Some (fst kv = fst kv')
                | _ \<Rightarrow> None)
         | _ \<Rightarrow> None))"

definition iterator_less ::
  "('k::linorder, 'v) Zone \<Rightarrow> 'v iterator \<Rightarrow> 'v iterator \<Rightarrow> bool option" where
  "iterator_less z it other =
     (if is_end it then Some False
      else if is_end other then Some True
      else
        (case (Option.bind (current_i it) (zone_at z), Option.bind (current_i other) (zone_at z)) of
           (Some t, Some t') \<Rightarrow>
             if hash_less (key_hash t) (key_hash t') then Some True
             else if key_hash t = key_hash t' then
               (case (iterator_deref z it, iterator_deref z other) of
                  (Some kv, Some kv') \<Rightarrow> Some (fst kv < fst kv')
                | _ \<Rightarrow> None)
             else Some False
         | _ \<Rightarrow> None))"

text \<open>A range-based \<^verbatim>\<open>for\<close> over the map (as in \<^verbatim>\<open>operator<<\<close>): the pairs that
  \<^verbatim>\<open>*it\<close> yields from \<^verbatim>\<open>begin()\<close> until \<^verbatim>\<open>it != end()\<close> fails.\<close>

partial_function (option) iterator_range ::
  "('k, 'v) Zone \<Rightarrow> 'v iterator \<Rightarrow> 'v iterator \<Rightarrow> ('k \<times> 'v) list option" where
  "iterator_range z it e =
     (case iterator_eq z it e of
        None \<Rightarrow> None
      | Some eq \<Rightarrow>
          if eq then Some []
          else
            (case iterator_deref z it of
               None \<Rightarrow> None
             | Some kv \<Rightarrow>
                 (case iterator_inc z it of
                    None \<Rightarrow> None
                  | Some it1 \<Rightarrow>
                      Option.bind (iterator_range z it1 e) (\<lambda>kvs. Some (kv # kvs)))))"

declare iterator_range.simps [code]

definition map_pairs :: "('k, 'v) Zone \<Rightarrow> 'v PersistentMap \<Rightarrow> ('k \<times> 'v) list option" where
  "map_pairs z m =
     (case map_begin z m of
        None \<Rightarrow> None
      | Some b \<Rightarrow> iterator_range z b (map_end m))"

subsection \<open>The double iterator and equality\<close>

record 'v double_iterator =
  first_d :: "'v iterator"
  second_d :: "'v iterator"
  first_current_d :: bool
  second_current_d :: bool

text \<open>The constructor \<^verbatim>\<open>double_iterator(iterator first, iterator second)\<close>.\<close>

definition double_iterator ::
  "('k::linorder, 'v) Zone \<Rightarrow> 'v iterator \<Rightarrow> 'v iterator \<Rightarrow> 'v double_iterator option" where
  "double_iterator z first second =
     (case iterator_eq z first second of
        None \<Rightarrow> None
      | Some eq \<Rightarrow>
          if eq then
            Some \<lparr>first_d = first, second_d = second, first_current_d = True,
                  second_current_d = True\<rparr>
          else
            (case iterator_less z first second of
               None \<Rightarrow> None
             | Some lt \<Rightarrow>
                 if lt then
                   Some \<lparr>first_d = first, second_d = second, first_current_d = True,
                         second_current_d = False\<rparr>
                 else
                   Some \<lparr>first_d = first, second_d = second, first_current_d = False,
                         second_current_d = True\<rparr>))"

text \<open>\<^verbatim>\<open>double_iterator::operator*\<close>.\<close>

definition double_deref ::
  "('k, 'v) Zone \<Rightarrow> 'v double_iterator \<Rightarrow> ('k \<times> 'v \<times> 'v) option" where
  "double_deref z d =
     (if first_current_d d then
        (case iterator_deref z (first_d d) of
           None \<Rightarrow> None
         | Some pair \<Rightarrow>
             (case (if second_current_d d then map_option snd (iterator_deref z (second_d d))
                    else Some (def_value_i (second_d d))) of
                None \<Rightarrow> None
              | Some v2 \<Rightarrow> Some (fst pair, snd pair, v2)))
      else
        (case iterator_deref z (second_d d) of
           None \<Rightarrow> None
         | Some pair \<Rightarrow> Some (fst pair, def_value_i (first_d d), snd pair)))"

text \<open>\<^verbatim>\<open>double_iterator::operator++\<close>.\<close>

definition double_inc ::
  "('k::linorder, 'v) Zone \<Rightarrow> 'v double_iterator \<Rightarrow> 'v double_iterator option" where
  "double_inc z d =
     (case (if first_current_d d then iterator_inc z (first_d d) else Some (first_d d)) of
        None \<Rightarrow> None
      | Some first \<Rightarrow>
          (case (if second_current_d d then iterator_inc z (second_d d)
                 else Some (second_d d)) of
             None \<Rightarrow> None
           | Some second \<Rightarrow> double_iterator z first second))"

text \<open>\<^verbatim>\<open>double_iterator::operator!=\<close>:
  \<^verbatim>\<open>first_ != other.first_ || second_ != other.second_\<close>.\<close>

definition double_neq ::
  "('k, 'v) Zone \<Rightarrow> 'v double_iterator \<Rightarrow> 'v double_iterator \<Rightarrow> bool option" where
  "double_neq z d other =
     (case iterator_eq z (first_d d) (first_d other) of
        None \<Rightarrow> None
      | Some eq1 \<Rightarrow>
          if \<not> eq1 then Some True
          else map_option Not (iterator_eq z (second_d d) (second_d other)))"

text \<open>\<^verbatim>\<open>ZipIterable::begin\<close> and \<^verbatim>\<open>ZipIterable::end\<close> for \<^verbatim>\<open>a.Zip(b)\<close>.\<close>

definition Zip_begin ::
  "('k::linorder, 'v) Zone \<Rightarrow> 'v PersistentMap \<Rightarrow> 'v PersistentMap \<Rightarrow>
     'v double_iterator option" where
  "Zip_begin z a b =
     (case map_begin z a of
        None \<Rightarrow> None
      | Some ia \<Rightarrow>
          (case map_begin z b of
             None \<Rightarrow> None
           | Some ib \<Rightarrow> double_iterator z ia ib))"

definition Zip_end ::
  "('k::linorder, 'v) Zone \<Rightarrow> 'v PersistentMap \<Rightarrow> 'v PersistentMap \<Rightarrow>
     'v double_iterator option" where
  "Zip_end z a b = double_iterator z (map_end a) (map_end b)"

text \<open>A range-based \<^verbatim>\<open>for\<close> over \<^verbatim>\<open>a.Zip(b)\<close>: the triples it yields.\<close>

partial_function (option) double_range ::
  "('k::linorder, 'v) Zone \<Rightarrow> 'v double_iterator \<Rightarrow> 'v double_iterator \<Rightarrow>
     ('k \<times> 'v \<times> 'v) list option" where
  "double_range z d e =
     (case double_neq z d e of
        None \<Rightarrow> None
      | Some ne \<Rightarrow>
          if \<not> ne then Some []
          else
            (case double_deref z d of
               None \<Rightarrow> None
             | Some triple \<Rightarrow>
                 (case double_inc z d of
                    None \<Rightarrow> None
                  | Some d1 \<Rightarrow>
                      Option.bind (double_range z d1 e) (\<lambda>ts. Some (triple # ts)))))"

declare double_range.simps [code]

definition Zip_triples ::
  "('k::linorder, 'v) Zone \<Rightarrow> 'v PersistentMap \<Rightarrow> 'v PersistentMap \<Rightarrow>
     ('k \<times> 'v \<times> 'v) list option" where
  "Zip_triples z a b =
     (case Zip_begin z a b of
        None \<Rightarrow> None
      | Some d \<Rightarrow>
          (case Zip_end z a b of
             None \<Rightarrow> None
           | Some e \<Rightarrow> double_range z d e))"

text \<open>The loop of \<^verbatim>\<open>PersistentMap::operator==\<close> over \<^verbatim>\<open>Zip(other)\<close>, which returns
  \<^verbatim>\<open>false\<close> at the first triple with two different values.\<close>

partial_function (option) equal_loop ::
  "('k::linorder, 'v) Zone \<Rightarrow> 'v double_iterator \<Rightarrow> 'v double_iterator \<Rightarrow> bool option" where
  "equal_loop z d e =
     (case double_neq z d e of
        None \<Rightarrow> None
      | Some ne \<Rightarrow>
          if \<not> ne then Some True
          else
            (case double_deref z d of
               None \<Rightarrow> None
             | Some triple \<Rightarrow>
                 if fst (snd triple) \<noteq> snd (snd triple) then Some False
                 else
                   (case double_inc z d of
                      None \<Rightarrow> None
                    | Some d1 \<Rightarrow> equal_loop z d1 e)))"

declare equal_loop.simps [code]

text \<open>\<^verbatim>\<open>PersistentMap::operator==\<close>.\<close>

definition map_equal ::
  "('k::linorder, 'v) Zone \<Rightarrow> 'v PersistentMap \<Rightarrow> 'v PersistentMap \<Rightarrow> bool option" where
  "map_equal z m other =
     (if tree_m m = tree_m other then Some True
      else if def_value_m m \<noteq> def_value_m other then Some False
      else
        (case Zip_begin z m other of
           None \<Rightarrow> None
         | Some d \<Rightarrow>
             (case Zip_end z m other of
                None \<Rightarrow> None
              | Some e \<Rightarrow> equal_loop z d e)))"

section \<open>Definitions for the proofs\<close>

subsection \<open>Hash prefixes and the invariant of the zone\<close>

text \<open>\<open>agree h g n\<close>: the hashes \<open>h\<close> and \<open>g\<close> have the same first \<open>n\<close> bits.
  \<open>side t i\<close> is the side pointer of \<open>t\<close> at depth \<open>i\<close>, null from the length of \<open>t\<close> on,
  and \<open>sides_into\<close> writes the side pointers of the depths from \<open>level\<close> to \<open>lv\<close> into a
  path array.\<close>

definition agree :: "HashValue \<Rightarrow> HashValue \<Rightarrow> nat \<Rightarrow> bool" where
  "agree h g n = (\<forall>i<n. hash_at h i = hash_at g i)"

definition side :: "('k, 'v) FocusedTree \<Rightarrow> nat \<Rightarrow> ptr" where
  "side t i = (if i < length_t t then path_array t ! i else None)"

definition wf_node :: "('k, 'v) FocusedTree \<Rightarrow> bool" where
  "wf_node t \<longleftrightarrow> length_t t \<le> kHashBits \<and> length (path_array t) = length_t t"

definition sides_into :: "('k, 'v) FocusedTree \<Rightarrow> nat \<Rightarrow> nat \<Rightarrow> ptr list \<Rightarrow> ptr list" where
  "sides_into t level lv path = fold (\<lambda>i p. p[i := side t i]) [level..<lv] path"

text \<open>The invariant of the zone.  A bucket is not empty, strictly sorted by key, and
  holds keys of one hash.  A node stores the hash of its key, and each of its side
  pointers is an older node whose hash has the bits of the node before the position of
  the pointer and the other bit at that position.  A map handle is in the zone when its
  root is null or a node of the zone.\<close>

definition bucket_ok :: "('k::linorder \<Rightarrow> size_t) \<Rightarrow> HashValue \<Rightarrow> ('k \<times> 'v) list \<Rightarrow> bool" where
  "bucket_ok Hasher h bucket \<longleftrightarrow>
     bucket \<noteq> [] \<and> sorted_wrt (<) (map fst bucket) \<and>
     (\<forall>k \<in> fst ` set bucket. HashValue (Hasher k) = h)"

definition node_ok ::
  "('k::linorder \<Rightarrow> size_t) \<Rightarrow> ('k, 'v) Zone \<Rightarrow> nat \<Rightarrow> ('k, 'v) FocusedTree \<Rightarrow> bool" where
  "node_ok Hasher z a t \<longleftrightarrow>
     wf_node t \<and>
     key_hash t = HashValue (Hasher (fst (key_value t))) \<and>
     (\<forall>bucket. more_t t = Some bucket \<longrightarrow> bucket_ok Hasher (key_hash t) bucket) \<and>
     (\<forall>i c. i < length_t t \<and> path_array t ! i = Some c \<longrightarrow>
        c < a \<and> agree (key_hash (z ! c)) (key_hash t) i \<and>
        hash_at (key_hash (z ! c)) i \<noteq> hash_at (key_hash t) i)"

definition zone_ok :: "('k::linorder \<Rightarrow> size_t) \<Rightarrow> ('k, 'v) Zone \<Rightarrow> bool" where
  "zone_ok Hasher z \<longleftrightarrow> (\<forall>a < length z. node_ok Hasher z a (z ! a))"

definition map_in :: "('k, 'v) Zone \<Rightarrow> 'v PersistentMap \<Rightarrow> bool" where
  "map_in z m \<longleftrightarrow> (case tree_m m of None \<Rightarrow> True | Some a \<Rightarrow> a < length z)"

text \<open>The pointer \<open>tree\<close>, met at depth \<open>level\<close> on the way to \<open>hash\<close>, is null or a node of
  the zone whose hash has the first \<open>level\<close> bits of \<open>hash\<close>.\<close>

definition on_route :: "('k, 'v) Zone \<Rightarrow> HashValue \<Rightarrow> ptr \<Rightarrow> nat \<Rightarrow> bool" where
  "on_route z hash tree level \<longleftrightarrow>
     (case tree of None \<Rightarrow> True | Some a \<Rightarrow> a < length z \<and> agree (key_hash (z ! a)) hash level)"

text \<open>What the path-recording \<^verbatim>\<open>FindHash\<close> has established when it returns \<open>old\<close>,
  the path \<open>path'\<close> and the length \<open>len\<close>, started at depth \<open>level\<close> with the path \<open>path\<close>.\<close>

definition route_post ::
  "('k, 'v) Zone \<Rightarrow> HashValue \<Rightarrow> nat \<Rightarrow> ptr list \<Rightarrow> ptr \<Rightarrow> ptr list \<Rightarrow> nat \<Rightarrow> bool" where
  "route_post z hash level path old path' len \<longleftrightarrow>
     level \<le> len \<and> len \<le> kHashBits \<and> length path' = kHashBits \<and>
     (\<forall>i<level. path' ! i = path ! i) \<and>
     (\<forall>b. old = Some b \<longrightarrow> b < length z \<and> key_hash (z ! b) = hash) \<and>
     (\<forall>i c. level \<le> i \<and> i < len \<and> path' ! i = Some c \<longrightarrow>
        c < length z \<and> agree (key_hash (z ! c)) hash i \<and>
        hash_at (key_hash (z ! c)) i \<noteq> hash_at hash i)"

subsection \<open>What Add allocates\<close>

text \<open>The bucket and the node that \<open>Add\<close> allocates when it does not return the map
  itself, and the value that \<^verbatim>\<open>GetFocusedValue\<close> reads from a node.\<close>

definition Add_bucket :: "('k::linorder, 'v) Zone \<Rightarrow> ptr \<Rightarrow> 'k \<Rightarrow> 'v \<Rightarrow> ('k \<times> 'v) list option" where
  "Add_bucket z old key val =
     (case old of
        None \<Rightarrow> None
      | Some a \<Rightarrow>
          if more_t (z ! a) = None \<and> fst (key_value (z ! a)) = key then None
          else Some (ZoneMap_set
                 (case more_t (z ! a) of
                    Some bucket \<Rightarrow> bucket
                  | None \<Rightarrow> ZoneMap_set [] (fst (key_value (z ! a))) (snd (key_value (z ! a))))
                 key val))"

definition Add_node ::
  "('k::linorder, 'v) Zone \<Rightarrow> HashValue \<Rightarrow> ptr \<Rightarrow> ptr list \<Rightarrow> nat \<Rightarrow> 'k \<Rightarrow> 'v \<Rightarrow> ('k, 'v) FocusedTree" where
  "Add_node z hash old path len key val =
     \<lparr>key_value = (key, val), length_t = len, key_hash = hash,
      more_t = Add_bucket z old key val, path_array = take len path\<rparr>"

definition focused_value :: "('k, 'v) FocusedTree \<Rightarrow> 'v \<Rightarrow> 'k \<Rightarrow> 'v" where
  "focused_value t d key =
     (case more_t t of
        Some bucket \<Rightarrow> (case ZoneMap_find bucket key of None \<Rightarrow> d | Some v \<Rightarrow> v)
      | None \<Rightarrow> if key = fst (key_value t) then snd (key_value t) else d)"

subsection \<open>Zones built by Add\<close>

text \<open>The zones that a sequence of \<open>Add\<close> calls builds, starting from the empty zone; each
  call is made on a map handle of the zone built so far.\<close>

inductive zone_built :: "('k::linorder \<Rightarrow> size_t) \<Rightarrow> ('k, 'v) Zone \<Rightarrow> bool"
  for Hasher :: "'k::linorder \<Rightarrow> size_t" where
  built_empty: "zone_built Hasher []"
| built_Add: "zone_built Hasher z \<Longrightarrow> map_in z m \<Longrightarrow> Add Hasher z m key val = Some (m', z') \<Longrightarrow>
     zone_built Hasher z'"

subsection \<open>Concrete maps\<close>

text \<open>Integer keys hashed to their low bits, and the zones after
  \<^verbatim>\<open>PersistentMap(zone, 0).Add(1, 10)\<close> and a following \<^verbatim>\<open>Add(2, 20)\<close>.\<close>

definition ex_Hasher :: "int \<Rightarrow> size_t" where
  "ex_Hasher k = word_of_int k"

definition ex_map1 :: "int PersistentMap" where
  "ex_map1 = \<lparr>tree_m = Some 0, def_value_m = 0\<rparr>"

definition ex_zone1 :: "(int, int) Zone" where
  "ex_zone1 =
     [\<lparr>key_value = (1, 10), length_t = 0, key_hash = 1, more_t = None, path_array = []\<rparr>]"

definition ex_map2 :: "int PersistentMap" where
  "ex_map2 = \<lparr>tree_m = Some 1, def_value_m = 0\<rparr>"

definition ex_zone2 :: "(int, int) Zone" where
  "ex_zone2 = ex_zone1 @
     [\<lparr>key_value = (2, 20), length_t = 31, key_hash = 2, more_t = None,
       path_array = replicate 30 None @ [Some 0]\<rparr>]"

text \<open>The map \<^verbatim>\<open>PersistentMap(zone, 0).Add(1, 10).Add(1, 0)\<close>: its root stores the default
  value for key 1.\<close>

definition ex_map3 :: "int PersistentMap" where
  "ex_map3 = \<lparr>tree_m = Some 1, def_value_m = 0\<rparr>"

definition ex_zone3 :: "(int, int) Zone" where
  "ex_zone3 = ex_zone1 @
     [\<lparr>key_value = (1, 0), length_t = 0, key_hash = 1, more_t = None, path_array = []\<rparr>]"

subsection \<open>The order of the iteration and the in-order list\<close>

text \<open>The order of the iteration: the hash as an unsigned number first, the key second.\<close>

definition entry_less :: "('k::linorder \<Rightarrow> size_t) \<Rightarrow> 'k \<times> 'v \<Rightarrow> 'k \<times> 'v \<Rightarrow> bool" where
  "entry_less Hasher x y \<longleftrightarrow>
     hash_less (HashValue (Hasher (fst x))) (HashValue (Hasher (fst y))) \<or>
     (HashValue (Hasher (fst x)) = HashValue (Hasher (fst y)) \<and> fst x < fst y)"

definition leaf_list :: "('k, 'v) FocusedTree \<Rightarrow> ('k \<times> 'v) list" where
  "leaf_list t = (case more_t t of Some bucket \<Rightarrow> bucket | None \<Rightarrow> [key_value t])"

text \<open>The pairs stored below the pointer \<open>p\<close> when it is reached at depth \<open>d\<close>, from left
  to right.\<close>

function ptr_list :: "('k, 'v) Zone \<Rightarrow> ptr \<Rightarrow> nat \<Rightarrow> ('k \<times> 'v) list" where
  "ptr_list z p d =
     (case p of
        None \<Rightarrow> []
      | Some a \<Rightarrow>
          if a < length z \<and> d < length_t (z ! a) \<and> d < kHashBits \<and>
             (case side (z ! a) d of None \<Rightarrow> True | Some c \<Rightarrow> c < a)
          then
            (if hash_at (key_hash (z ! a)) d = Some kLeft
             then ptr_list z (Some a) (d + 1) @ ptr_list z (side (z ! a) d) (d + 1)
             else ptr_list z (side (z ! a) d) (d + 1) @ ptr_list z (Some a) (d + 1))
          else leaf_list (z ! a))"
  by pat_completeness auto

termination
  by (relation "measures [\<lambda>(z, p, d). case p of None \<Rightarrow> 0 | Some a \<Rightarrow> Suc a,
                          \<lambda>(z, p, d). kHashBits - d]")
     (auto split: option.splits)

declare ptr_list.simps [simp del]

text \<open>The value of a key in a list of pairs, \<open>d\<close> when the key is not there.\<close>

definition value_in :: "('k \<times> 'v) list \<Rightarrow> 'v \<Rightarrow> 'k \<Rightarrow> 'v" where
  "value_in xs d k = (case map_of xs k of None \<Rightarrow> d | Some v \<Rightarrow> v)"

subsection \<open>The state of the iterators\<close>

text \<open>The pairs still to be visited above the current leaf: at each level where the
  path of hash \<open>h\<close> went left, the subtree saved in \<open>path[l]\<close>.\<close>

fun stack_list :: "('k, 'v) Zone \<Rightarrow> HashValue \<Rightarrow> ptr list \<Rightarrow> nat \<Rightarrow> ('k \<times> 'v) list" where
  "stack_list z h path 0 = []"
| "stack_list z h path (Suc l) =
     (if hash_at h l = Some kLeft then ptr_list z (path ! l) (Suc l) else []) @
     stack_list z h path l"

text \<open>The saved subtrees between the levels \<open>lo\<close> and \<open>hi\<close> are right siblings on the
  path of \<open>h\<close>; \<open>iter_ok\<close> is the invariant of an iterator.\<close>

definition stack_ok :: "('k, 'v) Zone \<Rightarrow> HashValue \<Rightarrow> ptr list \<Rightarrow> nat \<Rightarrow> nat \<Rightarrow> bool" where
  "stack_ok z h path lo hi \<longleftrightarrow>
     (\<forall>l. lo \<le> l \<and> l < hi \<and> hash_at h l = Some kLeft \<longrightarrow>
        (case path ! l of
           None \<Rightarrow> True
         | Some c \<Rightarrow> c < length z \<and> agree (key_hash (z ! c)) h l \<and>
             hash_at (key_hash (z ! c)) l = Some kRight))"

definition bucket_pos :: "('k, 'v) FocusedTree \<Rightarrow> 'v iterator \<Rightarrow> nat" where
  "bucket_pos t it = (case more_t t of None \<Rightarrow> 0 | Some bucket \<Rightarrow> more_iter_i it)"

text \<open>The pairs from the current position of the iterator to the end.\<close>

definition iter_rest :: "('k, 'v) Zone \<Rightarrow> 'v iterator \<Rightarrow> ('k \<times> 'v) list" where
  "iter_rest z it =
     (case current_i it of
        None \<Rightarrow> []
      | Some a \<Rightarrow>
          drop (bucket_pos (z ! a) it) (leaf_list (z ! a)) @
          stack_list z (key_hash (z ! a)) (path_i it) (level_i it))"

definition iter_ok :: "('k, 'v) Zone \<Rightarrow> 'v iterator \<Rightarrow> bool" where
  "iter_ok z it \<longleftrightarrow>
     (case current_i it of
        None \<Rightarrow> True
      | Some a \<Rightarrow>
          a < length z \<and> length_t (z ! a) \<le> level_i it \<and> level_i it \<le> kHashBits \<and>
          length (path_i it) = kHashBits \<and>
          bucket_pos (z ! a) it < length (leaf_list (z ! a)) \<and>
          stack_ok z (key_hash (z ! a)) (path_i it) 0 (level_i it))"

text \<open>Which sides are current, from the two lists of pairs still to be visited.\<close>

fun zip_flags :: "('k::linorder \<Rightarrow> size_t) \<Rightarrow> ('k \<times> 'v) list \<Rightarrow> ('k \<times> 'v) list \<Rightarrow> bool \<times> bool" where
  "zip_flags Hasher [] [] = (True, True)"
| "zip_flags Hasher [] (y # ys) = (False, True)"
| "zip_flags Hasher (x # xs) [] = (True, False)"
| "zip_flags Hasher (x # xs) (y # ys) =
     (if fst x = fst y then (True, True)
      else if entry_less Hasher x y then (True, False)
      else (False, True))"

section \<open>Hash prefixes and FindHash\<close>

lemma agree_refl [simp]: "agree h h n"
  by (simp add: agree_def)

lemma agree_0 [simp]: "agree h g 0"
  by (simp add: agree_def)

lemma agree_sym: "agree h g n \<Longrightarrow> agree g h n"
  by (simp add: agree_def)

lemma agree_trans: "agree h g n \<Longrightarrow> agree g f n \<Longrightarrow> agree h f n"
  by (simp add: agree_def)

lemma agree_mono: "agree h g n \<Longrightarrow> m \<le> n \<Longrightarrow> agree h g m"
  by (simp add: agree_def)

lemma agree_Suc: "agree h g (Suc n) \<longleftrightarrow> agree h g n \<and> hash_at h n = hash_at g n"
  by (auto simp: agree_def less_Suc_eq)

lemma agree_at: "agree h g n \<Longrightarrow> i < n \<Longrightarrow> hash_at h i = hash_at g i"
  by (simp add: agree_def)

lemma hash_at_eq_bit:
  "i < kHashBits \<Longrightarrow> hash_at h i = hash_at g i \<longleftrightarrow> bit h (kHashBits - i - 1) = bit g (kHashBits - i - 1)"
  by (simp add: hash_at_def)

lemma agree_full: assumes "agree h g kHashBits" shows "h = g"
proof (rule bit_word_eqI)
  fix n assume "n < LENGTH(32)"
  then have n: "n < kHashBits" by (simp add: kHashBits_def)
  then have "hash_at h (kHashBits - n - 1) = hash_at g (kHashBits - n - 1)"
    using assms by (intro agree_at [OF assms]) simp
  with n show "bit h n = bit g n"
    by (simp add: hash_at_def split: if_splits)
qed

lemma hash_at_xor:
  "i < kHashBits \<Longrightarrow>
   hash_at (h XOR g) i = Some (if hash_at h i = hash_at g i then kLeft else kRight)"
  by (auto simp: hash_at_def bit_xor_iff)

lemma hash_at_binary:
  "i < kHashBits \<Longrightarrow> hash_at h i \<noteq> hash_at g i \<Longrightarrow> hash_at g i \<noteq> hash_at f i \<Longrightarrow>
   hash_at h i = hash_at f i"
  by (auto simp: hash_at_def split: if_splits)

lemma FindHash_skip_spec:
  "FindHash_skip (h XOR g) level = Some lv \<Longrightarrow>
   level \<le> lv \<and> lv < kHashBits \<and> (\<forall>i. level \<le> i \<and> i < lv \<longrightarrow> hash_at h i = hash_at g i) \<and>
   hash_at h lv \<noteq> hash_at g lv"
proof (induction "h XOR g" level rule: FindHash_skip.induct)
  case (1 level)
  show ?case
  proof (cases "level < kHashBits")
    case False
    with "1.prems" show ?thesis
      by (simp add: FindHash_skip.simps [of _ level] hash_at_def)
  next
    case True
    note lt = this
    show ?thesis
    proof (cases "hash_at h level = hash_at g level")
      case True
      with lt have a: "hash_at (h XOR g) level = Some kLeft" by (simp add: hash_at_xor)
      with "1.prems" have "FindHash_skip (h XOR g) (level + 1) = Some lv"
        by (simp add: FindHash_skip.simps [of _ level])
      from "1.hyps" [OF a refl this] have
        ih: "Suc level \<le> lv" "lv < kHashBits" "hash_at h lv \<noteq> hash_at g lv"
          "\<And>i. Suc level \<le> i \<Longrightarrow> i < lv \<Longrightarrow> hash_at h i = hash_at g i"
        by auto
      have "hash_at h i = hash_at g i" if "level \<le> i" "i < lv" for i
        using that ih(4) [of i] True by (cases "i = level") auto
      with ih show ?thesis by auto
    next
      case False
      with lt have a: "hash_at (h XOR g) level = Some kRight" by (simp add: hash_at_xor)
      with "1.prems" have "lv = level"
        by (simp add: FindHash_skip.simps [of _ level])
      with False lt show ?thesis by auto
    qed
  qed
qed

lemma FindHash_skip_total:
  "h \<noteq> g \<Longrightarrow> agree h g level \<Longrightarrow> \<exists>lv. FindHash_skip (h XOR g) level = Some lv"
proof (induction "kHashBits - level" arbitrary: level)
  case 0
  then have "agree h g kHashBits" by (auto intro: agree_mono)
  with \<open>h \<noteq> g\<close> show ?case by (auto dest: agree_full)
next
  case (Suc n)
  then have lt: "level < kHashBits" by simp
  show ?case
  proof (cases "hash_at h level = hash_at g level")
    case True
    with Suc.prems have "agree h g (Suc level)" by (simp add: agree_Suc)
    moreover from Suc.hyps(2) have "n = kHashBits - Suc level" by simp
    ultimately obtain lv where "FindHash_skip (h XOR g) (Suc level) = Some lv"
      using Suc.hyps(1) [of "Suc level"] Suc.prems(1) by auto
    with True lt show ?thesis
      by (simp add: FindHash_skip.simps [of _ level] hash_at_xor)
  next
    case False
    with lt show ?thesis
      by (simp add: FindHash_skip.simps [of _ level] hash_at_xor)
  qed
qed

lemma FindHash_skip_determ:
  "level \<le> lv \<Longrightarrow> lv < kHashBits \<Longrightarrow> \<forall>i. level \<le> i \<and> i < lv \<longrightarrow> hash_at h i = hash_at g i \<Longrightarrow>
   hash_at h lv \<noteq> hash_at g lv \<Longrightarrow> FindHash_skip (h XOR g) level = Some lv"
proof (induction "lv - level" arbitrary: level)
  case 0
  then have "level = lv" by simp
  with 0 show ?case by (simp add: FindHash_skip.simps [of _ lv] hash_at_xor)
next
  case (Suc n)
  then have lt: "level < lv" by simp
  with Suc.prems have a: "hash_at h level = hash_at g level" by simp
  have "FindHash_skip (h XOR g) (Suc level) = Some lv"
    using Suc.hyps(2) Suc.prems lt by (intro Suc.hyps(1)) auto
  with a lt Suc.prems(2) show ?case
    by (simp add: FindHash_skip.simps [of _ level] hash_at_xor)
qed

lemma FindHash_skip_shift:
  "level \<le> m \<Longrightarrow> \<forall>i. level \<le> i \<and> i < m \<longrightarrow> hash_at x i = Some kLeft \<Longrightarrow>
   FindHash_skip x level = FindHash_skip x m"
proof (induction "m - level" arbitrary: level)
  case 0
  then show ?case by simp
next
  case (Suc n)
  then have lt: "level < m" by simp
  with Suc.prems have a: "hash_at x level = Some kLeft" by simp
  have "FindHash_skip x (Suc level) = FindHash_skip x m"
    using Suc.hyps(2) Suc.prems lt by (intro Suc.hyps(1)) auto
  with a show ?case by (simp add: FindHash_skip.simps [of _ level])
qed

lemma side_path_at:
  "wf_node t \<Longrightarrow> (if i < length_t t then path_at t i else Some None) = Some (side t i)"
  by (simp add: wf_node_def side_def path_at_def)

lemma sides_into_empty [simp]: "lv \<le> level \<Longrightarrow> sides_into t level lv path = path"
  by (simp add: sides_into_def)

lemma sides_into_step:
  "level < lv \<Longrightarrow> sides_into t level lv path = sides_into t (Suc level) lv (path[level := side t level])"
  by (simp add: sides_into_def upt_rec [of level])

lemma length_sides_into [simp]: "length (sides_into t level lv path) = length path"
proof (induction "lv - level" arbitrary: level path)
  case 0 then show ?case by simp
next
  case (Suc n)
  then have "level < lv" "n = lv - Suc level" by simp_all
  with Suc.hyps(1) [of "Suc level"] show ?case by (simp add: sides_into_step)
qed

lemma nth_sides_into:
  "i < length path \<Longrightarrow>
   sides_into t level lv path ! i = (if level \<le> i \<and> i < lv then side t i else path ! i)"
proof (induction "lv - level" arbitrary: level path)
  case 0 then show ?case by auto
next
  case (Suc n)
  then have lt: "level < lv" and n: "n = lv - Suc level" by simp_all
  from Suc.hyps(1) [OF n, of "path[level := side t level]"] Suc.prems lt
  show ?case by (cases "i = level") (auto simp: sides_into_step nth_list_update)
qed

lemma FindHash_record_eq:
  "wf_node t \<Longrightarrow>
   FindHash_record x t level path =
     map_option (\<lambda>lv. (lv, sides_into t level lv path)) (FindHash_skip x level)"
proof (induction x t level path rule: FindHash_record.induct)
  case (1 x t level path)
  show ?case
  proof (cases "hash_at x level")
    case None
    then show ?thesis
      by (simp add: FindHash_record.simps [of x t level] FindHash_skip.simps [of x level])
  next
    case (Some b)
    show ?thesis
    proof (cases b)
      case kLeft
      note p = side_path_at [OF "1.prems", of level]
      from "1.IH" [OF Some kLeft p "1.prems"] Some kLeft p
      have "FindHash_record x t level path =
          map_option (\<lambda>lv. (lv, sides_into t (Suc level) lv (path[level := side t level])))
            (FindHash_skip x (Suc level))"
        by (simp add: FindHash_record.simps [of x t level])
      also have "\<dots> = map_option (\<lambda>lv. (lv, sides_into t level lv path)) (FindHash_skip x (Suc level))"
      proof (cases "FindHash_skip x (Suc level)")
        case None then show ?thesis by simp
      next
        case (Some lv)
        with FindHash_skip_range [OF Some] show ?thesis
          by (simp add: sides_into_step [of level lv])
      qed
      finally show ?thesis using Some kLeft
        by (simp add: FindHash_skip.simps [of x level])
    next
      case kRight
      with Some show ?thesis
        by (simp add: FindHash_record.simps [of x t level] FindHash_skip.simps [of x level])
    qed
  qed
qed

lemma FindHash_copy_eq:
  "wf_node t \<Longrightarrow>
   FindHash_copy t level path = Some (max level (length_t t), sides_into t level (length_t t) path)"
proof (induction t level path rule: FindHash_copy.induct)
  case (1 t level path)
  show ?case
  proof (cases "level < length_t t")
    case False
    then show ?thesis by (simp add: FindHash_copy.simps [of t level] max_def)
  next
    case True
    with "1.prems" have lt: "level < kHashBits" by (simp add: wf_node_def)
    from True "1.prems" have p: "path_at t level = Some (side t level)"
      by (simp add: path_at_def side_def wf_node_def)
    from "1.IH" [OF True lt p "1.prems"] True lt p show ?thesis
      by (simp add: FindHash_copy.simps [of t level] sides_into_step max_def)
  qed
qed

lemma zone_okD: "zone_ok Hasher z \<Longrightarrow> a < length z \<Longrightarrow> node_ok Hasher z a (z ! a)"
  by (simp add: zone_ok_def)

lemma zone_ok_wf: "zone_ok Hasher z \<Longrightarrow> a < length z \<Longrightarrow> wf_node (z ! a)"
  by (simp add: zone_ok_def node_ok_def)

lemma zone_ok_side:
  assumes "zone_ok Hasher z" "a < length z" "side (z ! a) i = Some c"
  shows "c < a \<and> agree (key_hash (z ! c)) (key_hash (z ! a)) i \<and>
         hash_at (key_hash (z ! c)) i \<noteq> hash_at (key_hash (z ! a)) i \<and> i < kHashBits"
proof -
  from assms(3) have i: "i < length_t (z ! a)" and p: "path_array (z ! a) ! i = Some c"
    by (auto simp: side_def split: if_splits)
  from zone_okD [OF assms(1,2)] i p have
    "c < a \<and> agree (key_hash (z ! c)) (key_hash (z ! a)) i \<and>
     hash_at (key_hash (z ! c)) i \<noteq> hash_at (key_hash (z ! a)) i"
    unfolding node_ok_def by blast
  moreover from zone_ok_wf [OF assms(1,2)] i have "i < kHashBits" by (simp add: wf_node_def)
  ultimately show ?thesis by simp
qed

lemma on_route_None [simp]: "on_route z hash None level"
  by (simp add: on_route_def)

lemma on_route_child:
  assumes ok: "zone_ok Hasher z" and a: "a < length z" and ag: "agree (key_hash (z ! a)) hash level"
    and sk: "FindHash_skip (hash XOR key_hash (z ! a)) level = Some lv"
  shows "on_route z hash (side (z ! a) lv) (lv + 1)"
proof (cases "side (z ! a) lv")
  case None then show ?thesis by simp
next
  case (Some c)
  from FindHash_skip_spec [OF sk] have lv: "level \<le> lv" "lv < kHashBits"
    and same: "\<And>i. level \<le> i \<Longrightarrow> i < lv \<Longrightarrow> hash_at hash i = hash_at (key_hash (z ! a)) i"
    and diff: "hash_at hash lv \<noteq> hash_at (key_hash (z ! a)) lv" by auto
  from zone_ok_side [OF ok a Some] have c: "c < a"
    and cag: "agree (key_hash (z ! c)) (key_hash (z ! a)) lv"
    and cdiff: "hash_at (key_hash (z ! c)) lv \<noteq> hash_at (key_hash (z ! a)) lv" by auto
  have "hash_at (key_hash (z ! c)) i = hash_at hash i" if "i < lv + 1" for i
  proof (cases "i = lv")
    case True
    with lv cdiff diff show ?thesis
      using hash_at_binary [of lv "key_hash (z ! c)" "key_hash (z ! a)" hash] by auto
  next
    case False
    with that have i: "i < lv" by simp
    show ?thesis
    proof (cases "i < level")
      case True
      with agree_at [OF ag True] agree_at [OF cag i] show ?thesis by simp
    next
      case False
      with same [of i] i agree_at [OF cag i] show ?thesis by simp
    qed
  qed
  then have "agree (key_hash (z ! c)) hash (lv + 1)" by (simp add: agree_def)
  with c a Some show ?thesis by (simp add: on_route_def)
qed

lemma FindHash_loop_Some:
  "a < length z \<Longrightarrow>
   FindHash_loop z hash (Some a) level =
     (if hash = key_hash (z ! a) then Some (Some a)
      else case FindHash_skip (hash XOR key_hash (z ! a)) level of
             None \<Rightarrow> None
           | Some lv \<Rightarrow>
               (case (if lv < length_t (z ! a) then path_at (z ! a) lv else Some None) of
                  None \<Rightarrow> None
                | Some child \<Rightarrow> FindHash_loop z hash child (lv + 1)))"
  by (simp add: FindHash_loop.simps [of z hash "Some a"] zone_at_def)

lemma FindHash_loop_None [simp]: "FindHash_loop z hash None level = Some None"
  by (simp add: FindHash_loop.simps [of z hash None])

lemma FindHash_path_loop_None [simp]:
  "FindHash_path_loop z hash None level path = Some (None, path, level)"
  by (simp add: FindHash_path_loop.simps [of z hash None])

lemma FindHash_path_loop_Some:
  "a < length z \<Longrightarrow> wf_node (z ! a) \<Longrightarrow>
   FindHash_path_loop z hash (Some a) level path =
     (if hash = key_hash (z ! a) then
        Some (Some a, sides_into (z ! a) level (length_t (z ! a)) path, max level (length_t (z ! a)))
      else case FindHash_skip (hash XOR key_hash (z ! a)) level of
             None \<Rightarrow> None
           | Some lv \<Rightarrow>
               FindHash_path_loop z hash (side (z ! a) lv) (lv + 1)
                 ((sides_into (z ! a) level lv path)[lv := Some a]))"
  by (simp add: FindHash_path_loop.simps [of z hash "Some a"] zone_at_def FindHash_copy_eq
      FindHash_record_eq side_path_at split: option.splits)

lemma FindHash_loop_Some_wf:
  "a < length z \<Longrightarrow> wf_node (z ! a) \<Longrightarrow>
   FindHash_loop z hash (Some a) level =
     (if hash = key_hash (z ! a) then Some (Some a)
      else case FindHash_skip (hash XOR key_hash (z ! a)) level of
             None \<Rightarrow> None
           | Some lv \<Rightarrow> FindHash_loop z hash (side (z ! a) lv) (lv + 1))"
  by (simp add: FindHash_loop_Some side_path_at split: option.splits)

lemma FindHash_path_loop_spec:
  assumes ok: "zone_ok Hasher z"
  shows "on_route z hash tree level \<Longrightarrow> level \<le> kHashBits \<Longrightarrow> length path = kHashBits \<Longrightarrow>
    \<exists>old path' len. FindHash_path_loop z hash tree level path = Some (old, path', len) \<and>
      FindHash_loop z hash tree level = Some old \<and> route_post z hash level path old path' len"
proof (induction "kHashBits + 1 - level" arbitrary: tree level path rule: less_induct)
  case less
  show ?case
  proof (cases tree)
    case None
    with less.prems show ?thesis by (auto simp: route_post_def)
  next
    case (Some a)
    with less.prems(1) have a: "a < length z" and ag: "agree (key_hash (z ! a)) hash level"
      by (simp_all add: on_route_def)
    let ?t = "z ! a"
    note wf = zone_ok_wf [OF ok a]
    show ?thesis
    proof (cases "hash = key_hash ?t")
      case True
      let ?p = "sides_into ?t level (length_t ?t) path" and ?n = "max level (length_t ?t)"
      have "route_post z hash level path (Some a) ?p ?n"
        unfolding route_post_def
      proof (intro conjI allI impI)
        show "?n \<le> kHashBits" using wf less.prems(2) by (simp add: wf_node_def)
        show "length ?p = kHashBits" using less.prems(3) by simp
        show "?p ! i = path ! i" if "i < level" for i
          using that less.prems(2,3) by (simp add: nth_sides_into)
        show "b < length z" "key_hash (z ! b) = hash" if "Some a = Some b" for b
          using that a True by auto
      next
        fix i c assume h: "level \<le> i \<and> i < ?n \<and> ?p ! i = Some c"
        then have il: "i < length_t ?t" by (auto simp: max_def split: if_splits)
        with wf less.prems(3) have "i < length path" by (simp add: wf_node_def)
        with h il have "side ?t i = Some c" by (auto simp: nth_sides_into)
        from zone_ok_side [OF ok a this] a True
        show "c < length z" "agree (key_hash (z ! c)) hash i"
          "hash_at (key_hash (z ! c)) i \<noteq> hash_at hash i" by auto
      qed simp
      with True a wf show ?thesis
        by (simp add: Some FindHash_path_loop_Some FindHash_loop_Some_wf)
    next
      case False
      from ag have "agree hash (key_hash ?t) level" by (rule agree_sym)
      from FindHash_skip_total [OF False this] obtain lv where
        sk: "FindHash_skip (hash XOR key_hash ?t) level = Some lv" by blast
      from FindHash_skip_spec [OF sk] have lv: "level \<le> lv" "lv < kHashBits"
        and same: "\<And>i. level \<le> i \<Longrightarrow> i < lv \<Longrightarrow> hash_at hash i = hash_at (key_hash ?t) i"
        and diff: "hash_at hash lv \<noteq> hash_at (key_hash ?t) lv" by auto
      have agt: "agree (key_hash ?t) hash lv"
        unfolding agree_def
      proof (intro allI impI)
        fix i assume "i < lv"
        then show "hash_at (key_hash ?t) i = hash_at hash i"
          using agree_at [OF ag, of i] same [of i] by (cases "i < level") auto
      qed
      let ?p2 = "(sides_into ?t level lv path)[lv := Some a]"
      have "kHashBits + 1 - (lv + 1) < kHashBits + 1 - level" using lv by simp
      moreover note on_route_child [OF ok a ag sk]
      moreover have "lv + 1 \<le> kHashBits" using lv by simp
      moreover have "length ?p2 = kHashBits" using less.prems(3) by simp
      ultimately obtain old path' len where
        r: "FindHash_path_loop z hash (side ?t lv) (lv + 1) ?p2 = Some (old, path', len)"
        and f: "FindHash_loop z hash (side ?t lv) (lv + 1) = Some old"
        and post: "route_post z hash (lv + 1) ?p2 old path' len"
        using less.hyps [of "lv + 1" "side ?t lv" ?p2] by blast
      from post have p1: "lv + 1 \<le> len" "len \<le> kHashBits" "length path' = kHashBits"
        and frame: "\<And>i. i < lv + 1 \<Longrightarrow> path' ! i = ?p2 ! i"
        and old: "\<And>b. old = Some b \<Longrightarrow> b < length z \<and> key_hash (z ! b) = hash"
        and sides: "\<And>i c. lv + 1 \<le> i \<Longrightarrow> i < len \<Longrightarrow> path' ! i = Some c \<Longrightarrow>
           c < length z \<and> agree (key_hash (z ! c)) hash i \<and>
           hash_at (key_hash (z ! c)) i \<noteq> hash_at hash i"
        unfolding route_post_def by blast+
      have lvp: "lv < length path" using lv less.prems(3) by simp
      have "route_post z hash level path old path' len"
        unfolding route_post_def
      proof (intro conjI allI impI)
        show "level \<le> len" using lv p1 by simp
        show "len \<le> kHashBits" by fact
        show "length path' = kHashBits" by fact
        show "path' ! i = path ! i" if "i < level" for i
          using that frame [of i] lv lvp by (simp add: nth_sides_into)
        show "b < length z" "key_hash (z ! b) = hash" if "old = Some b" for b
          using old [OF that] by auto
      next
        fix i c assume h: "level \<le> i \<and> i < len \<and> path' ! i = Some c"
        have "c < length z \<and> agree (key_hash (z ! c)) hash i \<and>
              hash_at (key_hash (z ! c)) i \<noteq> hash_at hash i"
        proof (cases "lv + 1 \<le> i")
          case True
          with h sides [of i c] show ?thesis by auto
        next
          case False
          then have ilv: "i \<le> lv" by simp
          show ?thesis
          proof (cases "i = lv")
            case True
            with h frame [of lv] lvp have "c = a" by auto
            with True a agt diff show ?thesis by auto
          next
            case False
            with ilv have i: "i < lv" by simp
            with h frame [of i] lvp have "side ?t i = Some c" by (auto simp: nth_sides_into)
            from zone_ok_side [OF ok a this] have c: "c < a"
              and cag: "agree (key_hash (z ! c)) (key_hash ?t) i"
              and cdiff: "hash_at (key_hash (z ! c)) i \<noteq> hash_at (key_hash ?t) i" by auto
            from agt i have "agree (key_hash ?t) hash i" by (auto intro: agree_mono)
            with cag have "agree (key_hash (z ! c)) hash i" by (rule agree_trans)
            moreover from agree_at [OF agt i] cdiff
            have "hash_at (key_hash (z ! c)) i \<noteq> hash_at hash i" by simp
            ultimately show ?thesis using c a by simp
          qed
        qed
        then show "c < length z" "agree (key_hash (z ! c)) hash i"
          "hash_at (key_hash (z ! c)) i \<noteq> hash_at hash i" by auto
      qed
      with False a wf sk r f show ?thesis
        by (simp add: Some FindHash_path_loop_Some FindHash_loop_Some_wf)
    qed
  qed
qed

section \<open>Growing the zone\<close>

lemma node_ok_append:
  assumes "node_ok Hasher z a t" "a \<le> length z"
  shows "node_ok Hasher (z @ zs) a t"
proof -
  have "c < a \<and> agree (key_hash ((z @ zs) ! c)) (key_hash t) i \<and>
        hash_at (key_hash ((z @ zs) ! c)) i \<noteq> hash_at (key_hash t) i"
    if "i < length_t t \<and> path_array t ! i = Some c" for i c
  proof -
    from assms(1) that have "c < a \<and> agree (key_hash (z ! c)) (key_hash t) i \<and>
        hash_at (key_hash (z ! c)) i \<noteq> hash_at (key_hash t) i"
      unfolding node_ok_def by blast
    moreover from this assms(2) have "(z @ zs) ! c = z ! c" by (simp add: nth_append)
    ultimately show ?thesis by simp
  qed
  with assms(1) show ?thesis unfolding node_ok_def by blast
qed

lemma zone_ok_snoc:
  assumes "zone_ok Hasher z" "node_ok Hasher z (length z) t"
  shows "zone_ok Hasher (z @ [t])"
  unfolding zone_ok_def
proof (intro allI impI)
  fix a assume "a < length (z @ [t])"
  then consider "a < length z" | "a = length z" by fastforce
  then show "node_ok Hasher (z @ [t]) a ((z @ [t]) ! a)"
  proof cases
    case 1
    with zone_okD [OF assms(1) 1] show ?thesis
      by (simp add: nth_append node_ok_append)
  next
    case 2
    with assms(2) show ?thesis by (simp add: node_ok_append)
  qed
qed

lemma FindHash_loop_append:
  assumes ok: "zone_ok Hasher z"
  shows "(\<And>a. tree = Some a \<Longrightarrow> a < length z) \<Longrightarrow>
    FindHash_loop (z @ zs) hash tree level = FindHash_loop z hash tree level"
proof (induction "kHashBits + 1 - level" arbitrary: tree level rule: less_induct)
  case less
  show ?case
  proof (cases tree)
    case None then show ?thesis by simp
  next
    case (Some a)
    with less.prems have a: "a < length z" by simp
    then have a': "a < length (z @ zs)" and nth: "(z @ zs) ! a = z ! a"
      by (simp_all add: nth_append)
    note wf = zone_ok_wf [OF ok a]
    show ?thesis
    proof (cases "hash = key_hash (z ! a)")
      case True
      with a a' nth show ?thesis by (simp add: Some FindHash_loop_Some)
    next
      case False
      show ?thesis
      proof (cases "FindHash_skip (hash XOR key_hash (z ! a)) level")
        case None
        with False a a' nth show ?thesis by (simp add: Some FindHash_loop_Some)
      next
        case (Some lv)
        from FindHash_skip_range [OF Some] have "kHashBits + 1 - (lv + 1) < kHashBits + 1 - level"
          by auto
        moreover have "c < length z" if "side (z ! a) lv = Some c" for c
          using zone_ok_side [OF ok a that] a by simp
        ultimately have "FindHash_loop (z @ zs) hash (side (z ! a) lv) (lv + 1) =
            FindHash_loop z hash (side (z ! a) lv) (lv + 1)"
          by (rule less.hyps)
        with False Some a a' nth wf show ?thesis
          by (simp add: \<open>tree = Some a\<close> FindHash_loop_Some_wf)
      qed
    qed
  qed
qed

lemma GetFocusedValue_append:
  "(\<And>a. tree = Some a \<Longrightarrow> a < length z) \<Longrightarrow>
   GetFocusedValue (z @ zs) m tree key = GetFocusedValue z m tree key"
  by (cases tree) (simp_all add: GetFocusedValue_def zone_at_def nth_append)

lemma Get_append:
  assumes "zone_ok Hasher z" "map_in z m"
  shows "Get Hasher (z @ zs) m key = Get Hasher z m key"
proof -
  let ?h = "HashValue (Hasher key)"
  from assms(2) have r: "\<And>a. tree_m m = Some a \<Longrightarrow> a < length z"
    by (simp add: map_in_def)
  from assms(2) have "on_route z ?h (tree_m m) 0"
    by (simp add: on_route_def map_in_def split: option.splits)
  from FindHash_path_loop_spec [OF assms(1) this, of "replicate kHashBits None"]
  obtain old where f: "FindHash_loop z ?h (tree_m m) 0 = Some old"
    and o: "\<And>b. old = Some b \<Longrightarrow> b < length z"
    by (auto simp: route_post_def)
  have "FindHash_loop (z @ zs) ?h (tree_m m) 0 = FindHash_loop z ?h (tree_m m) 0"
    by (rule FindHash_loop_append [OF assms(1) r])
  with f have "FindHash_loop (z @ zs) ?h (tree_m m) 0 = Some old" by simp
  with f GetFocusedValue_append [of old z zs m key] o show ?thesis
    by (simp add: Get_def FindHash_def)
qed

section \<open>What Add does\<close>

lemma ZoneMap_find_set_same [simp]: "ZoneMap_find (ZoneMap_set b k v) k = Some v"
  by (induction b k v rule: ZoneMap_set.induct) auto

lemma ZoneMap_find_set_other [simp]:
  "k' \<noteq> k \<Longrightarrow> ZoneMap_find (ZoneMap_set b k v) k' = ZoneMap_find b k'"
  by (induction b k v rule: ZoneMap_set.induct) auto

lemma ZoneMap_set_keys [simp]: "fst ` set (ZoneMap_set b k v) = insert k (fst ` set b)"
  by (induction b k v rule: ZoneMap_set.induct) auto

lemma ZoneMap_set_sorted:
  "sorted_wrt (<) (map fst b) \<Longrightarrow> sorted_wrt (<) (map fst (ZoneMap_set b k v))"
  by (induction b k v rule: ZoneMap_set.induct) (auto simp: image_iff)

lemma ZoneMap_set_not_Nil [simp]: "ZoneMap_set b k v \<noteq> []"
  by (cases "(b, k, v)" rule: ZoneMap_set.cases) auto

lemma bucket_ok_set:
  "bucket_ok Hasher h b \<Longrightarrow> HashValue (Hasher k) = h \<Longrightarrow> bucket_ok Hasher h (ZoneMap_set b k v)"
  by (simp add: bucket_ok_def ZoneMap_set_sorted)

lemma bucket_ok_pair:
  "HashValue (Hasher (fst kv)) = h \<Longrightarrow> HashValue (Hasher k) = h \<Longrightarrow>
   bucket_ok Hasher h (ZoneMap_set [kv] k v)"
  by (cases kv) (auto simp: bucket_ok_def)

lemma GetFocusedValue_None [simp]: "GetFocusedValue z m None key = Some (def_value_m m)"
  by (simp add: GetFocusedValue_def)

lemma GetFocusedValue_Some:
  "a < length z \<Longrightarrow>
   GetFocusedValue z m (Some a) key = Some (focused_value (z ! a) (def_value_m m) key)"
  by (simp add: GetFocusedValue_def focused_value_def zone_at_def split: option.splits)

lemma FindHash_path_total:
  assumes "zone_ok Hasher z" "map_in z m"
  shows "\<exists>old path' len. FindHash_path z m hash = Some (old, path', len) \<and>
     FindHash z m hash = Some old \<and>
     route_post z hash 0 (replicate kHashBits None) old path' len"
proof -
  from assms(2) have "on_route z hash (tree_m m) 0"
    by (simp add: on_route_def map_in_def split: option.splits)
  from FindHash_path_loop_spec [OF assms(1) this, of "replicate kHashBits None"]
  show ?thesis by (simp add: FindHash_path_def FindHash_def)
qed

lemma Get_total:
  assumes "zone_ok Hasher z" "map_in z m"
  shows "\<exists>v. Get Hasher z m key = Some v"
proof -
  from FindHash_path_total [OF assms, of "HashValue (Hasher key)"] obtain old path' len where
    f: "FindHash z m (HashValue (Hasher key)) = Some old"
    and p: "route_post z (HashValue (Hasher key)) 0 (replicate kHashBits None) old path' len"
    by blast
  show ?thesis
  proof (cases old)
    case None with f show ?thesis by (simp add: Get_def)
  next
    case (Some b)
    with p have "b < length z" by (simp add: route_post_def)
    with f Some show ?thesis by (simp add: Get_def GetFocusedValue_Some)
  qed
qed

lemma Add_noop:
  assumes "zone_ok Hasher z" "map_in z m" "Get Hasher z m key = Some val"
  shows "Add Hasher z m key val = Some (m, z)"
proof -
  from FindHash_path_total [OF assms(1,2), of "HashValue (Hasher key)"] obtain old path' len where
    "FindHash_path z m (HashValue (Hasher key)) = Some (old, path', len)"
    "FindHash z m (HashValue (Hasher key)) = Some old" by blast
  with assms(3) show ?thesis by (simp add: Add_def Get_def)
qed

lemma Add_fresh:
  assumes ok: "zone_ok Hasher z" and m: "map_in z m" and g: "Get Hasher z m key \<noteq> Some val"
  shows "\<exists>old path' len.
     FindHash z m (HashValue (Hasher key)) = Some old \<and>
     FindHash_path z m (HashValue (Hasher key)) = Some (old, path', len) \<and>
     route_post z (HashValue (Hasher key)) 0 (replicate kHashBits None) old path' len \<and>
     Add Hasher z m key val =
       Some (\<lparr>tree_m = Some (length z), def_value_m = def_value_m m\<rparr>,
             z @ [Add_node z (HashValue (Hasher key)) old path' len key val])"
proof -
  let ?h = "HashValue (Hasher key)"
  from FindHash_path_total [OF ok m, of ?h] obtain old path' len where
    fp: "FindHash_path z m ?h = Some (old, path', len)" and f: "FindHash z m ?h = Some old"
    and p: "route_post z ?h 0 (replicate kHashBits None) old path' len" by blast
  have "Add Hasher z m key val =
       Some (\<lparr>tree_m = Some (length z), def_value_m = def_value_m m\<rparr>,
             z @ [Add_node z ?h old path' len key val])"
  proof (cases old)
    case None
    with fp f g show ?thesis
      by (simp add: Add_def Get_def Add_node_def Add_bucket_def)
  next
    case (Some b)
    with p have b: "b < length z" by (simp add: route_post_def)
    with fp f g Some show ?thesis
      by (simp add: Add_def Get_def Add_node_def Add_bucket_def GetFocusedValue_Some zone_at_def
          split: option.splits)
  qed
  with f fp p show ?thesis by blast
qed

lemma Add_node_ok:
  assumes ok: "zone_ok Hasher z"
    and p: "route_post z (HashValue (Hasher key)) 0 path old path' len"
  shows "node_ok Hasher z (length z) (Add_node z (HashValue (Hasher key)) old path' len key val)"
proof -
  let ?h = "HashValue (Hasher key)"
  let ?t = "Add_node z ?h old path' len key val"
  from p have len: "len \<le> kHashBits" "length path' = kHashBits"
    and old: "\<And>b. old = Some b \<Longrightarrow> b < length z \<and> key_hash (z ! b) = ?h"
    and sides: "\<And>i c. i < len \<Longrightarrow> path' ! i = Some c \<Longrightarrow>
       c < length z \<and> agree (key_hash (z ! c)) ?h i \<and> hash_at (key_hash (z ! c)) i \<noteq> hash_at ?h i"
    unfolding route_post_def by auto
  have "wf_node ?t" using len by (simp add: wf_node_def Add_node_def)
  moreover have "key_hash ?t = HashValue (Hasher (fst (key_value ?t)))"
    by (simp add: Add_node_def)
  moreover have "bucket_ok Hasher (key_hash ?t) bucket" if "more_t ?t = Some bucket" for bucket
  proof (cases old)
    case None with that show ?thesis by (simp add: Add_node_def Add_bucket_def)
  next
    case (Some b)
    from old [OF Some] have b: "b < length z" and hb: "key_hash (z ! b) = ?h" by auto
    note nb = zone_okD [OF ok b]
    show ?thesis
    proof (cases "more_t (z ! b)")
      case None
      from nb have "key_hash (z ! b) = HashValue (Hasher (fst (key_value (z ! b))))"
        unfolding node_ok_def by blast
      with hb have "HashValue (Hasher (fst (key_value (z ! b)))) = ?h" by simp
      with that Some None show ?thesis
        by (auto simp: Add_node_def Add_bucket_def bucket_ok_pair split: if_splits)
    next
      case (Some bk)
      with nb have "bucket_ok Hasher (key_hash (z ! b)) bk" unfolding node_ok_def by blast
      with hb have "bucket_ok Hasher ?h bk" by simp
      with that \<open>old = Some b\<close> Some show ?thesis
        by (auto simp: Add_node_def Add_bucket_def bucket_ok_set)
    qed
  qed
  moreover have "c < length z \<and> agree (key_hash (z ! c)) (key_hash ?t) i \<and>
        hash_at (key_hash (z ! c)) i \<noteq> hash_at (key_hash ?t) i"
    if "i < length_t ?t \<and> path_array ?t ! i = Some c" for i c
    using that sides [of i c] by (auto simp: Add_node_def)
  ultimately show ?thesis unfolding node_ok_def by blast
qed

lemma hash_at_neq_imp_neq: "hash_at g i \<noteq> hash_at h i \<Longrightarrow> g \<noteq> h"
  by auto

lemma FindHash_loop_shift:
  assumes a: "a < length z" and wf: "wf_node (z ! a)" and m: "level \<le> m" "m \<le> kHashBits"
    and same: "\<And>i. level \<le> i \<Longrightarrow> i < m \<Longrightarrow> hash_at g i = hash_at (key_hash (z ! a)) i"
  shows "FindHash_loop z g (Some a) level = FindHash_loop z g (Some a) m"
proof -
  have "FindHash_skip (g XOR key_hash (z ! a)) level = FindHash_skip (g XOR key_hash (z ! a)) m"
    using m same by (intro FindHash_skip_shift) (auto simp: hash_at_xor)
  with a wf show ?thesis by (simp add: FindHash_loop_Some_wf)
qed

lemma FindHash_path_loop_other:
  assumes ok: "zone_ok Hasher z"
  shows "on_route z hash tree level \<Longrightarrow> level \<le> kHashBits \<Longrightarrow> length path = kHashBits \<Longrightarrow>
    FindHash_path_loop z hash tree level path = Some (old, path', len) \<Longrightarrow>
    FindHash_skip (g XOR hash) level = Some l \<Longrightarrow>
    FindHash_loop z g tree level =
      (if l < len then FindHash_loop z g (path' ! l) (l + 1) else Some None)"
proof (induction "kHashBits + 1 - level" arbitrary: tree level path rule: less_induct)
  case less
  note res = less.prems(4) and skg = less.prems(5)
  from FindHash_skip_spec [OF skg] have l: "level \<le> l" "l < kHashBits"
    and gsame: "\<And>i. level \<le> i \<Longrightarrow> i < l \<Longrightarrow> hash_at g i = hash_at hash i"
    and gdiff: "hash_at g l \<noteq> hash_at hash l" by auto
  from gdiff have gh: "g \<noteq> hash" by auto
  have lp: "l < length path" using l less.prems(3) by simp
  show ?case
  proof (cases tree)
    case None
    with res l show ?thesis by simp
  next
    case (Some a)
    with less.prems(1) have a: "a < length z" and ag: "agree (key_hash (z ! a)) hash level"
      by (simp_all add: on_route_def)
    let ?t = "z ! a"
    note wf = zone_ok_wf [OF ok a]
    show ?thesis
    proof (cases "hash = key_hash ?t")
      case True
      with res a wf Some have len: "len = max level (length_t ?t)"
        and p: "path' = sides_into ?t level (length_t ?t) path"
        by (simp_all add: FindHash_path_loop_Some)
      from True gh skg a wf have
        "FindHash_loop z g (Some a) level = FindHash_loop z g (side ?t l) (l + 1)"
        by (simp add: FindHash_loop_Some_wf)
      moreover have "side ?t l = None" if "\<not> l < len"
        using that len by (auto simp: side_def max_def split: if_splits)
      moreover have "path' ! l = side ?t l" if "l < len"
        using that len p l lp by (auto simp: nth_sides_into max_def split: if_splits)
      ultimately show ?thesis by (simp add: Some)
    next
      case False
      from ag have "agree hash (key_hash ?t) level" by (rule agree_sym)
      from FindHash_skip_total [OF False this] obtain lv where
        sk: "FindHash_skip (hash XOR key_hash ?t) level = Some lv" by blast
      from FindHash_skip_spec [OF sk] have lv: "level \<le> lv" "lv < kHashBits"
        and same: "\<And>i. level \<le> i \<Longrightarrow> i < lv \<Longrightarrow> hash_at hash i = hash_at (key_hash ?t) i"
        and diff: "hash_at hash lv \<noteq> hash_at (key_hash ?t) lv" by auto
      let ?p2 = "(sides_into ?t level lv path)[lv := Some a]"
      from res False a wf sk have
        r: "FindHash_path_loop z hash (side ?t lv) (lv + 1) ?p2 = Some (old, path', len)"
        by (simp add: Some FindHash_path_loop_Some)
      have m: "kHashBits + 1 - (lv + 1) < kHashBits + 1 - level" using lv by simp
      note route = on_route_child [OF ok a ag sk]
      have lv1: "lv + 1 \<le> kHashBits" using lv by simp
      have lp2: "length ?p2 = kHashBits" using less.prems(3) by simp
      from FindHash_path_loop_spec [OF ok route lv1 lp2] r
      have post: "route_post z hash (lv + 1) ?p2 old path' len" by auto
      then have len: "lv + 1 \<le> len" and frame: "\<And>i. i < lv + 1 \<Longrightarrow> path' ! i = ?p2 ! i"
        unfolding route_post_def by blast+
      have lvp: "lv < length path" using lv less.prems(3) by simp
      consider "l < lv" | "l = lv" | "lv < l" by linarith
      then show ?thesis
      proof cases
        case 1
        have "FindHash_skip (g XOR key_hash ?t) level = Some l"
        proof (rule FindHash_skip_determ [OF l])
          show "\<forall>i. level \<le> i \<and> i < l \<longrightarrow> hash_at g i = hash_at (key_hash ?t) i"
            using gsame same 1 by auto
          show "hash_at g l \<noteq> hash_at (key_hash ?t) l"
            using gdiff same [of l] l 1 by simp
        qed
        moreover from this have "g \<noteq> key_hash ?t"
          using FindHash_skip_spec [of g "key_hash ?t" level l] by auto
        ultimately have "FindHash_loop z g (Some a) level = FindHash_loop z g (side ?t l) (l + 1)"
          using a wf by (simp add: FindHash_loop_Some_wf)
        moreover have "path' ! l = side ?t l"
          using frame [of l] 1 l lp by (simp add: nth_sides_into)
        ultimately show ?thesis using 1 len by (simp add: Some)
      next
        case 2
        have "hash_at g lv = hash_at (key_hash ?t) lv"
          using hash_at_binary [OF lv(2), of g hash "key_hash ?t"] gdiff diff 2 by simp
        with gsame same 2 have
          "\<And>i. level \<le> i \<Longrightarrow> i < lv + 1 \<Longrightarrow> hash_at g i = hash_at (key_hash ?t) i"
          by (metis less_SucE Suc_eq_plus1)
        with a wf lv have "FindHash_loop z g (Some a) level = FindHash_loop z g (Some a) (lv + 1)"
          by (intro FindHash_loop_shift) auto
        moreover have "path' ! l = Some a" using frame [of lv] 2 lvp by simp
        ultimately show ?thesis using 2 len by (simp add: Some)
      next
        case 3
        have "FindHash_skip (g XOR key_hash ?t) level = Some lv"
        proof (rule FindHash_skip_determ [OF lv])
          show "\<forall>i. level \<le> i \<and> i < lv \<longrightarrow> hash_at g i = hash_at (key_hash ?t) i"
            using gsame same 3 by auto
          show "hash_at g lv \<noteq> hash_at (key_hash ?t) lv"
            using gsame [of lv] diff lv 3 by simp
        qed
        moreover from this have "g \<noteq> key_hash ?t"
          using FindHash_skip_spec [of g "key_hash ?t" level lv] by auto
        ultimately have "FindHash_loop z g (Some a) level = FindHash_loop z g (side ?t lv) (lv + 1)"
          using a wf by (simp add: FindHash_loop_Some_wf)
        moreover have "FindHash_skip (g XOR hash) (lv + 1) = Some l"
        proof (rule FindHash_skip_determ)
          show "lv + 1 \<le> l" using 3 by simp
          show "l < kHashBits" by fact
          show "\<forall>i. lv + 1 \<le> i \<and> i < l \<longrightarrow> hash_at g i = hash_at hash i"
            using gsame lv by auto
          show "hash_at g l \<noteq> hash_at hash l" by fact
        qed
        note less.hyps [OF m route lv1 lp2 r this]
        ultimately show ?thesis by (simp add: Some)
      qed
    qed
  qed
qed

lemma focused_value_Add_node_same:
  "focused_value (Add_node z hash old path len key val) d key = val"
  by (simp add: focused_value_def Add_node_def Add_bucket_def split: option.splits)

lemma ZoneMap_find_single: "ZoneMap_find [kv] k = (if k = fst kv then Some (snd kv) else None)"
  by (cases kv) simp

lemma focused_value_Add_node_other:
  "k2 \<noteq> key \<Longrightarrow>
   focused_value (Add_node z hash old path len key val) d k2 =
     (case old of None \<Rightarrow> d | Some b \<Rightarrow> focused_value (z ! b) d k2)"
  by (auto simp: focused_value_def Add_node_def Add_bucket_def ZoneMap_find_single
      split: option.splits)

lemma Get_eq_focused:
  assumes "FindHash z m (HashValue (Hasher key)) = Some old" "\<And>b. old = Some b \<Longrightarrow> b < length z"
  shows "Get Hasher z m key =
     Some (case old of None \<Rightarrow> def_value_m m | Some b \<Rightarrow> focused_value (z ! b) (def_value_m m) key)"
  using assms by (cases old) (simp_all add: Get_def GetFocusedValue_Some)

lemma Get_Add_fresh:
  fixes val :: 'v and key :: "'k::linorder"
  assumes ok: "zone_ok Hasher z" and m: "map_in z m"
    and f: "FindHash z m (HashValue (Hasher key)) = Some old"
    and fp: "FindHash_path z m (HashValue (Hasher key)) = Some (old, path', len)"
    and post: "route_post z (HashValue (Hasher key)) 0 (replicate kHashBits None) old path' len"
  defines "t \<equiv> Add_node z (HashValue (Hasher key)) old path' len key val"
  defines "m' \<equiv> \<lparr>tree_m = Some (length z), def_value_m = def_value_m m\<rparr>"
  shows "Get Hasher (z @ [t]) m' k2 = (if k2 = key then Some val else Get Hasher z m k2)"
proof -
  let ?h = "HashValue (Hasher key)" and ?g = "HashValue (Hasher k2)" and ?z = "z @ [t]"
  let ?d = "def_value_m m"
  have n: "length z < length ?z" and nth: "?z ! length z = t" by simp_all
  from Add_node_ok [OF ok post] have nok: "node_ok Hasher z (length z) t" by (simp add: t_def)
  then have wf: "wf_node (?z ! length z)" by (simp add: node_ok_def)
  have kh: "key_hash t = ?h" by (simp add: t_def Add_node_def)
  from post have len: "len \<le> kHashBits" "length path' = kHashBits"
    and old: "\<And>b. old = Some b \<Longrightarrow> b < length z"
    and sides: "\<And>i c. i < len \<Longrightarrow> path' ! i = Some c \<Longrightarrow> c < length z"
    unfolding route_post_def by auto
  have route0: "on_route z h (tree_m m) 0" for h
    using m by (simp add: on_route_def map_in_def split: option.splits)
  show ?thesis
  proof (cases "?g = ?h")
    case True
    then have "FindHash ?z m' ?g = Some (Some (length z))"
      using FindHash_loop_Some [OF n, of ?g 0] by (simp add: FindHash_def m'_def kh)
    then have g': "Get Hasher ?z m' k2 = Some (focused_value t ?d k2)"
      using GetFocusedValue_Some [OF n, of m' k2] by (simp add: Get_def m'_def)
    show ?thesis
    proof (cases "k2 = key")
      case True
      with g' show ?thesis by (simp add: t_def focused_value_Add_node_same)
    next
      case False
      from f \<open>?g = ?h\<close> have "FindHash z m ?g = Some old" by simp
      from Get_eq_focused [of z m Hasher k2 old, OF this old] g' False show ?thesis
        by (simp add: t_def focused_value_Add_node_other)
    qed
  next
    case False
    then have ne: "k2 \<noteq> key" by auto
    from FindHash_skip_total [OF False, of 0] obtain l where
      sk: "FindHash_skip (?g XOR ?h) 0 = Some l" by auto
    from FindHash_skip_range [OF sk] have l: "l < kHashBits" by simp
    have st: "side t l = (if l < len then path' ! l else None)"
      using len by (simp add: side_def t_def Add_node_def)
    have c: "c < length z" if "side t l = Some c" for c
      using that sides [of l c] by (simp add: st split: if_splits)
    have "FindHash_loop ?z ?g (Some (length z)) 0 = FindHash_loop ?z ?g (side t l) (l + 1)"
      using FindHash_loop_Some_wf [OF n wf, of ?g 0] False sk by (simp add: kh)
    also have "\<dots> = FindHash_loop z ?g (side t l) (l + 1)"
      by (rule FindHash_loop_append [OF ok c])
    also have "\<dots> = FindHash_loop z ?g (tree_m m) 0"
      using FindHash_path_loop_other [OF ok route0 _ _ fp [unfolded FindHash_path_def] sk]
      by (simp add: st)
    finally have eq: "FindHash ?z m' ?g = FindHash z m ?g"
      by (simp add: FindHash_def m'_def)
    from FindHash_path_total [OF ok m, of ?g] obtain r where
      r: "FindHash z m ?g = Some r" and rb: "\<And>b. r = Some b \<Longrightarrow> b < length z"
      by (auto simp: route_post_def)
    have "GetFocusedValue ?z m' r k2 = GetFocusedValue z m r k2"
      using rb by (cases r) (simp_all add: GetFocusedValue_Some nth_append m'_def)
    with eq r ne show ?thesis by (simp add: Get_def)
  qed
qed

lemma Add_cases:
  assumes ok: "zone_ok Hasher z" and m: "map_in z m"
  shows "(Get Hasher z m key = Some val \<and> Add Hasher z m key val = Some (m, z)) \<or>
    (\<exists>old path' len. Get Hasher z m key \<noteq> Some val \<and>
      FindHash z m (HashValue (Hasher key)) = Some old \<and>
      FindHash_path z m (HashValue (Hasher key)) = Some (old, path', len) \<and>
      route_post z (HashValue (Hasher key)) 0 (replicate kHashBits None) old path' len \<and>
      Add Hasher z m key val =
         Some (\<lparr>tree_m = Some (length z), def_value_m = def_value_m m\<rparr>,
               z @ [Add_node z (HashValue (Hasher key)) old path' len key val]))"
proof (cases "Get Hasher z m key = Some val")
  case True
  with Add_noop [OF ok m this] show ?thesis by blast
next
  case False
  with Add_fresh [OF ok m False] show ?thesis by blast
qed

lemma Add_zone_ok:
  assumes "zone_ok Hasher z" "map_in z m" "Add Hasher z m key val = Some (m', z')"
  shows "zone_ok Hasher z' \<and> map_in z' m' \<and> def_value_m m' = def_value_m m \<and> (\<exists>zs. z' = z @ zs)"
  using Add_cases [OF assms(1,2), of key val]
proof (elim disjE exE conjE)
  assume "Add Hasher z m key val = Some (m, z)"
  with assms show ?thesis by simp
next
  fix old path' len
  assume p: "route_post z (HashValue (Hasher key)) 0 (replicate kHashBits None) old path' len"
    and a: "Add Hasher z m key val =
         Some (\<lparr>tree_m = Some (length z), def_value_m = def_value_m m\<rparr>,
               z @ [Add_node z (HashValue (Hasher key)) old path' len key val])"
  with assms(3) zone_ok_snoc [OF assms(1) Add_node_ok [OF assms(1) p]]
  show ?thesis by (auto simp: map_in_def)
qed

lemma zone_built_ok: "zone_built Hasher z \<Longrightarrow> zone_ok Hasher z"
proof (induction rule: zone_built.induct)
  case built_empty
  show ?case by (simp add: zone_ok_def)
next
  case (built_Add z m key val m' z')
  with Add_zone_ok [OF built_Add.IH built_Add.hyps(2,3)] show ?case by simp
qed

lemma Add_total:
  assumes "zone_ok Hasher z" "map_in z m"
  shows "\<exists>m' z'. Add Hasher z m key val = Some (m', z')"
  using Add_cases [OF assms, of key val] by auto

lemma Get_Add:
  assumes ok: "zone_ok Hasher z" and m: "map_in z m" and a: "Add Hasher z m key val = Some (m', z')"
  shows "Get Hasher z' m' k2 = (if k2 = key then Some val else Get Hasher z m k2)"
  using Add_cases [OF ok m, of key val]
proof (elim disjE exE conjE)
  assume "Get Hasher z m key = Some val" "Add Hasher z m key val = Some (m, z)"
  with a show ?thesis by auto
next
  fix old path' len
  assume f: "FindHash z m (HashValue (Hasher key)) = Some old"
    and fp: "FindHash_path z m (HashValue (Hasher key)) = Some (old, path', len)"
    and p: "route_post z (HashValue (Hasher key)) 0 (replicate kHashBits None) old path' len"
    and a': "Add Hasher z m key val =
         Some (\<lparr>tree_m = Some (length z), def_value_m = def_value_m m\<rparr>,
               z @ [Add_node z (HashValue (Hasher key)) old path' len key val])"
  from Get_Add_fresh [OF ok m f fp p, of val k2] a' a show ?thesis by simp
qed

section \<open>Properties of Add and Get\<close>

lemma ex_Add1: "Add ex_Hasher [] (PersistentMap 0) 1 10 = Some (ex_map1, ex_zone1)"
  by code_simp

lemma ex_Add2: "Add ex_Hasher ex_zone1 ex_map1 2 20 = Some (ex_map2, ex_zone2)"
  by code_simp

lemma ex_built1: "zone_built ex_Hasher ex_zone1"
  by (rule built_Add [OF built_empty _ ex_Add1]) (simp add: map_in_def PersistentMap_def)

lemma ex_in1: "map_in ex_zone1 ex_map1"
  by (simp add: map_in_def ex_map1_def ex_zone1_def)

lemma ex_built2: "zone_built ex_Hasher ex_zone2"
  by (rule built_Add [OF ex_built1 ex_in1 ex_Add2])

lemma ex_in2: "map_in ex_zone2 ex_map2"
  by (simp add: map_in_def ex_map2_def ex_zone2_def ex_zone1_def)

lemma ex_in12: "map_in ex_zone2 ex_map1"
  by (simp add: map_in_def ex_map1_def ex_zone2_def ex_zone1_def)

text \<open>C1 (Get-after-Add): in a zone built by Add, for every map handle \<open>m\<close> of the zone,
  every key and every value, \<open>Add\<close> returns a map, and \<open>Get\<close> of the key on that map
  returns the value.\<close>

theorem Get_after_Add:
  assumes "zone_built Hasher z" and "map_in z m"
  shows "\<exists>m' z'. Add Hasher z m key val = Some (m', z') \<and> Get Hasher z' m' key = Some val"
proof -
  note ok = zone_built_ok [OF assms(1)]
  from Add_total [OF ok assms(2)] obtain m' z' where
    a: "Add Hasher z m key val = Some (m', z')" by blast
  from Get_Add [OF ok assms(2) a, of key] a show ?thesis by simp
qed

theorem Get_after_Add_witness:
  "zone_built ex_Hasher ex_zone2 \<and> map_in ex_zone2 ex_map2 \<and>
   (\<exists>m' z'. Add ex_Hasher ex_zone2 ex_map2 1 11 = Some (m', z') \<and>
      Get ex_Hasher z' m' 1 = Some 11)"
  using Get_after_Add [OF ex_built2 ex_in2, of 1 11] ex_built2 ex_in2 by blast

text \<open>C5 (no-op insert): when \<open>Get\<close> of the key already returns the value, \<open>Add\<close> returns a
  handle with the root pointer of \<open>m\<close> (and allocates nothing); consequently a second
  \<open>Add\<close> of the same pair returns the root pointer of the first.\<close>

theorem Add_same_value_same_root:
  assumes "zone_built Hasher z" and "map_in z m"
  shows "(Get Hasher z m key = Some val \<longrightarrow>
           (\<exists>m'. Add Hasher z m key val = Some (m', z) \<and> tree_m m' = tree_m m)) \<and>
         (\<exists>m1 z1 m2. Add Hasher z m key val = Some (m1, z1) \<and>
            Add Hasher z1 m1 key val = Some (m2, z1) \<and> tree_m m2 = tree_m m1)"
proof
  note ok = zone_built_ok [OF assms(1)]
  show "Get Hasher z m key = Some val \<longrightarrow>
           (\<exists>m'. Add Hasher z m key val = Some (m', z) \<and> tree_m m' = tree_m m)"
    using Add_noop [OF ok assms(2)] by blast
  from Add_total [OF ok assms(2)] obtain m1 z1 where
    a: "Add Hasher z m key val = Some (m1, z1)" by blast
  from Add_zone_ok [OF ok assms(2) a] have ok1: "zone_ok Hasher z1" and in1: "map_in z1 m1"
    by simp_all
  from Get_Add [OF ok assms(2) a, of key] have "Get Hasher z1 m1 key = Some val" by simp
  from Add_noop [OF ok1 in1 this] a
  show "\<exists>m1 z1 m2. Add Hasher z m key val = Some (m1, z1) \<and>
            Add Hasher z1 m1 key val = Some (m2, z1) \<and> tree_m m2 = tree_m m1"
    by blast
qed

theorem Add_same_value_same_root_witness:
  "zone_built ex_Hasher ex_zone2 \<and> map_in ex_zone2 ex_map2 \<and>
   Get ex_Hasher ex_zone2 ex_map2 2 = Some 20 \<and>
   (\<exists>m'. Add ex_Hasher ex_zone2 ex_map2 2 20 = Some (m', ex_zone2) \<and> tree_m m' = tree_m ex_map2) \<and>
   (\<exists>m1 z1 m2. Add ex_Hasher ex_zone2 ex_map2 2 20 = Some (m1, z1) \<and>
      Add ex_Hasher z1 m1 2 20 = Some (m2, z1) \<and> tree_m m2 = tree_m m1)"
proof -
  have g: "Get ex_Hasher ex_zone2 ex_map2 2 = Some 20" by code_simp
  from Add_same_value_same_root [OF ex_built2 ex_in2, of 2 20] g ex_built2 ex_in2
  show ?thesis by blast
qed

text \<open>C2 (persistence): when \<open>m2 = m1.Add(k, v)\<close> is constructed with \<open>v\<close> different from
  \<open>m1.Get(k)\<close>, the old handle \<open>m1\<close>, read in the zone after the allocation, still
  returns what it returned before.\<close>

theorem Add_persistence:
  assumes "zone_built Hasher z" and "map_in z m1" and "Get Hasher z m1 key \<noteq> Some val"
  shows "\<exists>m2 z' old. Add Hasher z m1 key val = Some (m2, z') \<and>
           Get Hasher z m1 key = Some old \<and> Get Hasher z' m1 key = Some old"
proof -
  note ok = zone_built_ok [OF assms(1)]
  from Add_total [OF ok assms(2)] obtain m2 z' where
    a: "Add Hasher z m1 key val = Some (m2, z')" by blast
  from Add_zone_ok [OF ok assms(2) a] obtain zs where "z' = z @ zs" by blast
  with Get_append [OF ok assms(2)] have "Get Hasher z' m1 key = Get Hasher z m1 key" by simp
  with Get_total [OF ok assms(2), of key] a show ?thesis by auto
qed

theorem Add_persistence_witness:
  "zone_built ex_Hasher ex_zone1 \<and> map_in ex_zone1 ex_map1 \<and>
   Get ex_Hasher ex_zone1 ex_map1 1 \<noteq> Some 2 \<and>
   (\<exists>m2 z' old. Add ex_Hasher ex_zone1 ex_map1 1 2 = Some (m2, z') \<and>
      Get ex_Hasher ex_zone1 ex_map1 1 = Some old \<and> Get ex_Hasher z' ex_map1 1 = Some old)"
proof -
  have g: "Get ex_Hasher ex_zone1 ex_map1 1 \<noteq> Some 2" by code_simp
  from Add_persistence [OF ex_built1 ex_in1 g] g ex_built1 ex_in1 show ?thesis by blast
qed

text \<open>C6 (Get-other): \<open>Add\<close> of \<open>k1\<close> leaves the value of every other key \<open>k2\<close> as it was.\<close>

theorem Get_other_after_Add:
  assumes "zone_built Hasher z" and "map_in z m" and "k1 \<noteq> k2"
  shows "\<exists>m' z' v2. Add Hasher z m k1 val = Some (m', z') \<and>
           Get Hasher z m k2 = Some v2 \<and> Get Hasher z' m' k2 = Some v2"
proof -
  note ok = zone_built_ok [OF assms(1)]
  from Add_total [OF ok assms(2)] obtain m' z' where
    a: "Add Hasher z m k1 val = Some (m', z')" by blast
  from Get_Add [OF ok assms(2) a, of k2] assms(3)
  have "Get Hasher z' m' k2 = Get Hasher z m k2" by simp
  with Get_total [OF ok assms(2), of k2] a show ?thesis by auto
qed

theorem Get_other_after_Add_witness:
  "zone_built ex_Hasher ex_zone2 \<and> map_in ex_zone2 ex_map2 \<and> (4294967298 :: int) \<noteq> 2 \<and>
   (\<exists>m' z' v2. Add ex_Hasher ex_zone2 ex_map2 4294967298 7 = Some (m', z') \<and>
      Get ex_Hasher ex_zone2 ex_map2 2 = Some v2 \<and> Get ex_Hasher z' m' 2 = Some v2)"
proof -
  have n: "(4294967298 :: int) \<noteq> 2" by simp
  from Get_other_after_Add [OF ex_built2 ex_in2 n] n ex_built2 ex_in2 show ?thesis by blast
qed

text \<open>C9 (structural invariant): in every node of a zone built by Add, the length is at
  most 32, and every non-null side pointer \<open>c\<close> at a position \<open>i\<close> below the length is a
  node of the zone whose hash bit at position \<open>i\<close> differs from the node's.\<close>

theorem Add_structural_invariant:
  assumes "zone_built Hasher z" and "a < length z"
  shows "length_t (z ! a) \<le> 32 \<and>
         (\<forall>i c. i < length_t (z ! a) \<and> path_at (z ! a) i = Some (Some c) \<longrightarrow>
            c < length z \<and> hash_at (key_hash (z ! c)) i \<noteq> None \<and>
            hash_at (key_hash (z ! c)) i \<noteq> hash_at (key_hash (z ! a)) i)"
proof (intro conjI allI impI)
  note ok = zone_built_ok [OF assms(1)]
  note wf = zone_ok_wf [OF ok assms(2)]
  then show "length_t (z ! a) \<le> 32" by (simp add: wf_node_def kHashBits_def)
  fix i c assume h: "i < length_t (z ! a) \<and> path_at (z ! a) i = Some (Some c)"
  then have "side (z ! a) i = Some c" by (auto simp: side_def path_at_def split: if_splits)
  from zone_ok_side [OF ok assms(2) this] have c: "c < a" "i < kHashBits"
    "hash_at (key_hash (z ! c)) i \<noteq> hash_at (key_hash (z ! a)) i" by simp_all
  from c(1) assms(2) show "c < length z" by simp
  from c(2) show "hash_at (key_hash (z ! c)) i \<noteq> None" by (simp add: hash_at_def)
  from c(3) show "hash_at (key_hash (z ! c)) i \<noteq> hash_at (key_hash (z ! a)) i" .
qed

theorem Add_structural_invariant_witness:
  "zone_built ex_Hasher ex_zone2 \<and> (1 :: nat) < length ex_zone2 \<and>
   length_t (ex_zone2 ! 1) \<le> 32 \<and> (30 :: nat) < length_t (ex_zone2 ! 1) \<and>
   path_at (ex_zone2 ! 1) 30 = Some (Some 0) \<and> (0 :: nat) < length ex_zone2 \<and>
   hash_at (key_hash (ex_zone2 ! 0)) 30 \<noteq> None \<and>
   hash_at (key_hash (ex_zone2 ! 0)) 30 \<noteq> hash_at (key_hash (ex_zone2 ! 1)) 30"
proof -
  have a: "(1 :: nat) < length ex_zone2" by (simp add: ex_zone2_def ex_zone1_def)
  have p: "(30 :: nat) < length_t (ex_zone2 ! 1) \<and> path_at (ex_zone2 ! 1) 30 = Some (Some 0)"
    by (simp add: ex_zone2_def ex_zone1_def path_at_def nth_append)
  from Add_structural_invariant [OF ex_built2 a] p a ex_built2 show ?thesis by blast
qed

section \<open>The end iterator and default values\<close>

lemma ex_Add3: "Add ex_Hasher ex_zone1 ex_map1 1 0 = Some (ex_map3, ex_zone3)"
  by code_simp

lemma ex_built3: "zone_built ex_Hasher ex_zone3"
  by (rule built_Add [OF ex_built1 ex_in1 ex_Add3])

lemma iterator_eq_end: "iterator_eq z it (map_end m) = Some (is_end it)"
  by (simp add: iterator_eq_def map_end_def iterator_end_def is_end_def)

lemma iterator_inc_end: "is_end it \<Longrightarrow> iterator_inc z it = Some it"
  by (subst iterator_inc.simps) (simp add: iterator_body_def is_end_def)

text \<open>C10: \<^verbatim>\<open>operator++\<close> on an iterator that is equal to \<^verbatim>\<open>m.end()\<close> returns (it is
  neither an error nor a loop), and the result is the same iterator, still equal to
  \<^verbatim>\<open>m.end()\<close>.\<close>

theorem inc_past_the_end:
  assumes "iterator_eq z it (map_end m) = Some True"
  shows "iterator_inc z it = Some it \<and> iterator_eq z it (map_end m) = Some True"
  using assms by (simp add: iterator_eq_end iterator_inc_end)

theorem inc_past_the_end_witness:
  "iterator_eq ex_zone2 (map_end ex_map2) (map_end ex_map2) = Some True \<and>
   iterator_inc ex_zone2 (map_end ex_map2) = Some (map_end ex_map2)"
proof -
  have e: "iterator_eq ex_zone2 (map_end ex_map2) (map_end ex_map2) = Some True"
    by (simp add: iterator_eq_def is_end_def map_end_def iterator_end_def)
  from inc_past_the_end [OF e] e show ?thesis by simp
qed

text \<open>C4, evaluated at \<^verbatim>\<open>m = PersistentMap(zone, 0).Add(1, 10).Add(1, 0)\<close>: \<open>m.Get(1)\<close> is the
  default value 0, and the iteration from \<^verbatim>\<open>begin()\<close> to \<^verbatim>\<open>end()\<close> yields the pair
  \<open>(1, 0)\<close>, because \<^verbatim>\<open>iterator::begin\<close> stops at the leftmost leaf without comparing
  its value with the default.\<close>

theorem begin_yields_default:
  "Add ex_Hasher [] (PersistentMap 0) 1 10 = Some (ex_map1, ex_zone1) \<and>
   Add ex_Hasher ex_zone1 ex_map1 1 0 = Some (ex_map3, ex_zone3) \<and>
   Get ex_Hasher ex_zone3 ex_map3 1 = Some (def_value_m ex_map3) \<and>
   map_pairs ex_zone3 ex_map3 = Some [(1, 0)]"
proof -
  have "Get ex_Hasher ex_zone3 ex_map3 1 = Some (def_value_m ex_map3)" by code_simp
  moreover have "map_pairs ex_zone3 ex_map3 = Some [(1, 0)]" by code_simp
  ultimately show ?thesis using ex_Add1 ex_Add3 by simp
qed

text \<open>C8, evaluated at the same map \<open>A\<close> and the empty map \<open>B\<close> with the same default:
  the double iterator yields the triple \<open>(1, 0, 0)\<close> for key 1, although \<open>A.Get(1)\<close> and
  \<open>B.Get(1)\<close> are both the default.\<close>

theorem zip_yields_default:
  "Get ex_Hasher ex_zone3 ex_map3 1 = Some (def_value_m ex_map3) \<and>
   Get ex_Hasher ex_zone3 (PersistentMap 0) 1 = Some (def_value_m (PersistentMap 0 :: int PersistentMap)) \<and>
   Zip_triples ex_zone3 ex_map3 (PersistentMap 0) = Some [(1, 0, 0)]"
proof -
  have "Get ex_Hasher ex_zone3 ex_map3 1 = Some (def_value_m ex_map3)" by code_simp
  moreover have "Get ex_Hasher ex_zone3 (PersistentMap 0) 1 =
      Some (def_value_m (PersistentMap 0 :: int PersistentMap))" by code_simp
  moreover have "Zip_triples ex_zone3 ex_map3 (PersistentMap 0) = Some [(1, 0, 0)]" by code_simp
  ultimately show ?thesis by simp
qed

text \<open>C3 fails for two empty maps with different default values: their root pointers
  are both null, and \<^verbatim>\<open>operator==\<close> returns true before it compares the defaults.\<close>

theorem equal_empty_maps_counterexample:
  "map_equal ([] :: (int, int) Zone) (PersistentMap 0) (PersistentMap 1) = Some True \<and>
   def_value_m (PersistentMap 0 :: int PersistentMap) \<noteq> def_value_m (PersistentMap 1 :: int PersistentMap)"
  by (simp add: map_equal_def PersistentMap_def)

section \<open>The pairs of a map in order\<close>

lemma word_less_first_diff:
  fixes h g :: "32 word"
  assumes n: "n < 32" and hi: "\<And>i. n < i \<Longrightarrow> i < 32 \<Longrightarrow> bit h i = bit g i"
    and hn: "\<not> bit h n" and gn: "bit g n"
  shows "h < g"
proof -
  have eq: "drop_bit (Suc n) h = drop_bit (Suc n) g"
  proof (rule bit_word_eqI)
    fix i assume "i < LENGTH(32)"
    show "bit (drop_bit (Suc n) h) i = bit (drop_bit (Suc n) g) i"
    proof (cases "Suc n + i < 32")
      case True
      with hi [of "Suc n + i"] show ?thesis by (simp add: bit_drop_bit_eq)
    next
      case False
      then have "\<not> bit h (Suc n + i)" "\<not> bit g (Suc n + i)"
        by (auto dest: bit_imp_le_length)
      then show ?thesis by (simp add: bit_drop_bit_eq)
    qed
  qed
  have split: "unat w = unat (drop_bit (Suc n) w) * 2 ^ Suc n + unat (take_bit (Suc n) w)"
    for w :: "32 word"
  proof -
    have "unat w = push_bit (Suc n) (drop_bit (Suc n) (unat w)) + take_bit (Suc n) (unat w)"
      by (simp only: bits_ident)
    then show ?thesis
      by (simp only: unat_drop_bit_eq unsigned_take_bit_eq push_bit_eq_mult)
  qed
  note dh = split [of h] and dg = split [of g]
  have th: "unat (take_bit (Suc n) h) < 2 ^ n"
  proof -
    have "take_bit (Suc n) (unat h) = take_bit n (unat h)"
      using hn by (simp add: take_bit_Suc_from_most bit_unsigned_iff)
    then show ?thesis by (simp add: unsigned_take_bit_eq)
  qed
  have tg: "2 ^ n \<le> unat (take_bit (Suc n) g)"
  proof -
    have "take_bit (Suc n) (unat g) = 2 ^ n + take_bit n (unat g)"
      using gn by (simp add: take_bit_Suc_from_most bit_unsigned_iff)
    then show ?thesis by (simp add: unsigned_take_bit_eq)
  qed
  from dh dg eq th tg have "unat h < unat g" by simp
  then show ?thesis by (simp add: word_less_nat_alt)
qed

lemma hash_less_first_diff:
  assumes "agree h g d" "hash_at h d = Some kLeft" "hash_at g d = Some kRight"
  shows "hash_less h g"
proof -
  from assms(2) have d: "d < kHashBits" by (simp add: hash_at_def split: if_splits)
  let ?n = "kHashBits - d - 1"
  have "bit h i = bit g i" if "?n < i" "i < 32" for i
  proof -
    from that d have "kHashBits - i - 1 < d" "kHashBits - i - 1 < kHashBits"
      by (simp_all add: kHashBits_def)
    from agree_at [OF assms(1) this(1)] this(2) that show ?thesis
      by (simp add: hash_at_def kHashBits_def split: if_splits)
  qed
  moreover from assms(2,3) d have "\<not> bit h ?n" "bit g ?n"
    by (simp_all add: hash_at_def split: if_splits)
  moreover from d have "?n < 32" by (simp add: kHashBits_def)
  ultimately have "h < g" by (intro word_less_first_diff [of ?n]) auto
  then show ?thesis by (simp add: hash_less_def word_less_nat_alt)
qed

lemma hash_less_irrefl [simp]: "\<not> hash_less h h"
  by (simp add: hash_less_def)

lemma hash_less_trans: "hash_less a b \<Longrightarrow> hash_less b c \<Longrightarrow> hash_less a c"
  by (simp add: hash_less_def)

lemma hash_less_linear: "hash_less a b \<or> a = b \<or> hash_less b a"
  by (auto simp: hash_less_def word_unat_eq_iff)

lemma hash_at_cases: "d < kHashBits \<Longrightarrow> hash_at h d = Some kLeft \<or> hash_at h d = Some kRight"
  by (simp add: hash_at_def)

lemma entry_less_trans:
  "entry_less Hasher x y \<Longrightarrow> entry_less Hasher y w \<Longrightarrow> entry_less Hasher x w"
  by (auto simp: entry_less_def dest: hash_less_trans)

lemma entry_less_irrefl [simp]: "\<not> entry_less Hasher x x"
  by (simp add: entry_less_def)

lemma entry_less_neq: "entry_less Hasher x y \<Longrightarrow> fst x \<noteq> fst y"
  by (auto simp: entry_less_def)

lemma ptr_list_None [simp]: "ptr_list z None d = []"
  by (simp add: ptr_list.simps [of z None])

lemma ptr_list_leaf:
  "length_t (z ! a) \<le> d \<Longrightarrow> ptr_list z (Some a) d = leaf_list (z ! a)"
  by (simp add: ptr_list.simps [of z "Some a"])

lemma ptr_list_node:
  assumes ok: "zone_ok Hasher z" and a: "a < length z" and d: "d < length_t (z ! a)"
  shows "ptr_list z (Some a) d =
     (if hash_at (key_hash (z ! a)) d = Some kLeft
      then ptr_list z (Some a) (d + 1) @ ptr_list z (side (z ! a) d) (d + 1)
      else ptr_list z (side (z ! a) d) (d + 1) @ ptr_list z (Some a) (d + 1))"
proof -
  from zone_ok_wf [OF ok a] d have "d < kHashBits" by (simp add: wf_node_def)
  moreover have "case side (z ! a) d of None \<Rightarrow> True | Some c \<Rightarrow> c < a"
    using zone_ok_side [OF ok a] by (auto split: option.splits)
  ultimately show ?thesis using a d by (subst ptr_list.simps) simp
qed

lemma leaf_list_hash:
  assumes "zone_ok Hasher z" "a < length z" "x \<in> set (leaf_list (z ! a))"
  shows "HashValue (Hasher (fst x)) = key_hash (z ! a)"
proof (cases "more_t (z ! a)")
  case None
  with assms(3) zone_okD [OF assms(1,2)] show ?thesis
    by (simp add: leaf_list_def node_ok_def)
next
  case (Some b)
  from zone_okD [OF assms(1,2)] Some have "bucket_ok Hasher (key_hash (z ! a)) b"
    unfolding node_ok_def by blast
  with assms(3) Some show ?thesis by (auto simp: leaf_list_def bucket_ok_def)
qed

lemma leaf_list_not_Nil:
  assumes "zone_ok Hasher z" "a < length z"
  shows "leaf_list (z ! a) \<noteq> []"
proof (cases "more_t (z ! a)")
  case None then show ?thesis by (simp add: leaf_list_def)
next
  case (Some b)
  from zone_okD [OF assms] Some have "bucket_ok Hasher (key_hash (z ! a)) b"
    unfolding node_ok_def by blast
  with Some show ?thesis by (simp add: leaf_list_def bucket_ok_def)
qed

lemma leaf_list_sorted:
  assumes "zone_ok Hasher z" "a < length z"
  shows "sorted_wrt (entry_less Hasher) (leaf_list (z ! a))"
proof (cases "more_t (z ! a)")
  case None then show ?thesis by (simp add: leaf_list_def)
next
  case (Some b)
  from zone_okD [OF assms] Some have bo: "bucket_ok Hasher (key_hash (z ! a)) b"
    unfolding node_ok_def by blast
  then have "sorted_wrt (\<lambda>x y. fst x < fst y) b"
    by (simp add: bucket_ok_def sorted_wrt_map)
  then have "sorted_wrt (entry_less Hasher) b"
  proof (rule sorted_wrt_mono_rel [rotated])
    fix x y assume "x \<in> set b" "y \<in> set b" "fst x < fst y"
    with bo show "entry_less Hasher x y" by (auto simp: entry_less_def bucket_ok_def)
  qed
  with Some show ?thesis by (simp add: leaf_list_def)
qed

text \<open>Induction over the subtrees of a zone: a leaf, or a node with its focused child
  (the node itself, one level down) and its side child.\<close>

lemma ptr_induct [consumes 2, case_names leaf node]:
  assumes ok: "zone_ok Hasher z" and a: "a < length z"
    and leaf: "\<And>a d. a < length z \<Longrightarrow> length_t (z ! a) \<le> d \<Longrightarrow> P a d"
    and node: "\<And>a d. a < length z \<Longrightarrow> d < length_t (z ! a) \<Longrightarrow> d < kHashBits \<Longrightarrow>
        P a (d + 1) \<Longrightarrow> (\<And>c. side (z ! a) d = Some c \<Longrightarrow> c < length z \<and> P c (d + 1)) \<Longrightarrow>
        P a d"
  shows "P a d"
proof -
  have "\<forall>d. P a d"
    using a
  proof (induction a rule: less_induct)
    case (less a)
    have "P a d" for d
    proof (induction "length_t (z ! a) - d" arbitrary: d)
      case 0
      then have "length_t (z ! a) \<le> d" by simp
      with less.prems show ?case by (rule leaf)
    next
      case (Suc n)
      then have d: "d < length_t (z ! a)" and n: "n = length_t (z ! a) - (d + 1)" by simp_all
      from zone_ok_wf [OF ok less.prems] d have dk: "d < kHashBits" by (simp add: wf_node_def)
      have side: "c < length z \<and> P c (d + 1)" if "side (z ! a) d = Some c" for c
      proof -
        from zone_ok_side [OF ok less.prems that] have "c < a" by simp
        with less.prems less.IH [of c] show ?thesis by simp
      qed
      from less.prems d dk Suc.hyps(1) [OF n] side show ?case by (rule node)
    qed
    then show ?case by blast
  qed
  then show ?thesis by blast
qed

text \<open>Every pair below a node reached at depth \<open>d\<close> has the first \<open>d\<close> hash bits of the
  node.\<close>

lemma ptr_list_prefix:
  assumes ok: "zone_ok Hasher z" and a: "a < length z"
  shows "\<forall>x \<in> set (ptr_list z (Some a) d). agree (HashValue (Hasher (fst x))) (key_hash (z ! a)) d"
  using ok a
proof (induction a d rule: ptr_induct)
  case (leaf a d)
  then show ?case using leaf_list_hash [OF ok] by (auto simp: ptr_list_leaf)
next
  case (node a d)
  have self: "agree (HashValue (Hasher (fst x))) (key_hash (z ! a)) d"
    if "x \<in> set (ptr_list z (Some a) (d + 1))" for x
    using node(4) that by (auto intro: agree_mono)
  have sub: "agree (HashValue (Hasher (fst x))) (key_hash (z ! a)) d"
    if "x \<in> set (ptr_list z (side (z ! a) d) (d + 1))" for x
  proof (cases "side (z ! a) d")
    case None with that show ?thesis by simp
  next
    case (Some c)
    from zone_ok_side [OF ok node(1) Some]
    have ca: "agree (key_hash (z ! c)) (key_hash (z ! a)) d" by simp
    from node(5) [OF Some] that Some
    have "agree (HashValue (Hasher (fst x))) (key_hash (z ! c)) (d + 1)" by simp
    then have "agree (HashValue (Hasher (fst x))) (key_hash (z ! c)) d"
      by (rule agree_mono) simp
    then show ?thesis using ca by (rule agree_trans)
  qed
  from self sub show ?case
    by (auto simp: ptr_list_node [OF ok node(1,2)] split: if_splits)
qed

text \<open>At the depth of a node, the pairs of its focused child have the node's bit and the
  pairs of its side child have the other bit.\<close>

lemma ptr_list_self_bit:
  assumes "zone_ok Hasher z" "a < length z" "x \<in> set (ptr_list z (Some a) (d + 1))"
  shows "hash_at (HashValue (Hasher (fst x))) d = hash_at (key_hash (z ! a)) d"
  using ptr_list_prefix [OF assms(1,2), of "d + 1"] assms(3) by (auto dest: agree_at)

lemma ptr_list_side_bit:
  assumes ok: "zone_ok Hasher z" and a: "a < length z"
    and x: "x \<in> set (ptr_list z (side (z ! a) d) (d + 1))"
  shows "hash_at (HashValue (Hasher (fst x))) d \<noteq> hash_at (key_hash (z ! a)) d \<and> d < kHashBits"
proof (cases "side (z ! a) d")
  case None with x show ?thesis by simp
next
  case (Some c)
  from zone_ok_side [OF ok a Some] have c: "c < length z" "d < kHashBits"
    and cd: "hash_at (key_hash (z ! c)) d \<noteq> hash_at (key_hash (z ! a)) d" using a by auto
  from ptr_list_prefix [OF ok c(1), of "d + 1"] x Some
  have "hash_at (HashValue (Hasher (fst x))) d = hash_at (key_hash (z ! c)) d"
    by (auto dest: agree_at)
  with cd c show ?thesis by simp
qed

lemma ptr_list_sorted:
  assumes ok: "zone_ok Hasher z" and a: "a < length z"
  shows "sorted_wrt (entry_less Hasher) (ptr_list z (Some a) d)"
  using ok a
proof (induction a d rule: ptr_induct)
  case (leaf a d)
  then show ?case using leaf_list_sorted [OF ok] by (simp add: ptr_list_leaf)
next
  case (node a d)
  let ?self = "ptr_list z (Some a) (d + 1)" and ?sub = "ptr_list z (side (z ! a) d) (d + 1)"
  have s1: "sorted_wrt (entry_less Hasher) ?self" by (rule node(4))
  have s2: "sorted_wrt (entry_less Hasher) ?sub"
    using node(5) by (cases "side (z ! a) d") auto
  have pre: "agree (HashValue (Hasher (fst x))) (HashValue (Hasher (fst y))) d"
    if "x \<in> set ?self" "y \<in> set ?sub" for x y
  proof -
    from ptr_list_prefix [OF ok node(1), of "d + 1"] that(1)
    have "agree (HashValue (Hasher (fst x))) (key_hash (z ! a)) d"
      by (auto intro: agree_mono)
    moreover have "agree (HashValue (Hasher (fst y))) (key_hash (z ! a)) d"
    proof (cases "side (z ! a) d")
      case None with that show ?thesis by simp
    next
      case (Some c)
      from zone_ok_side [OF ok node(1) Some] have c: "c < length z"
        and ca: "agree (key_hash (z ! c)) (key_hash (z ! a)) d" using node(1) by auto
      from ptr_list_prefix [OF ok c, of "d + 1"] that(2) Some
      have "agree (HashValue (Hasher (fst y))) (key_hash (z ! c)) d"
        by (auto intro: agree_mono)
      then show ?thesis using ca by (rule agree_trans)
    qed
    ultimately show ?thesis by (blast intro: agree_trans agree_sym)
  qed
  show ?case
  proof (cases "hash_at (key_hash (z ! a)) d = Some kLeft")
    case True
    have "entry_less Hasher x y" if "x \<in> set ?self" "y \<in> set ?sub" for x y
    proof -
      from ptr_list_self_bit [OF ok node(1) that(1)] True
      have "hash_at (HashValue (Hasher (fst x))) d = Some kLeft" by simp
      moreover from ptr_list_side_bit [OF ok node(1) that(2)] True
      have "hash_at (HashValue (Hasher (fst y))) d = Some kRight"
        using hash_at_cases [of d "HashValue (Hasher (fst y))"] by auto
      ultimately show ?thesis
        using hash_less_first_diff [OF pre [OF that]] by (simp add: entry_less_def)
    qed
    with s1 s2 True show ?thesis
      by (simp add: ptr_list_node [OF ok node(1,2)] sorted_wrt_append)
  next
    case False
    with node(3) have R: "hash_at (key_hash (z ! a)) d = Some kRight"
      using hash_at_cases [of d "key_hash (z ! a)"] by auto
    have "entry_less Hasher y x" if "x \<in> set ?self" "y \<in> set ?sub" for x y
    proof -
      from ptr_list_self_bit [OF ok node(1) that(1)] R
      have "hash_at (HashValue (Hasher (fst x))) d = Some kRight" by simp
      moreover from ptr_list_side_bit [OF ok node(1) that(2)] R
      have "hash_at (HashValue (Hasher (fst y))) d = Some kLeft"
        using hash_at_cases [of d "HashValue (Hasher (fst y))"] by auto
      ultimately show ?thesis
        using hash_less_first_diff [OF agree_sym [OF pre [OF that]]] by (simp add: entry_less_def)
    qed
    with s1 s2 False show ?thesis
      by (simp add: ptr_list_node [OF ok node(1,2)] sorted_wrt_append)
  qed
qed

lemma ZoneMap_find_map_of: "ZoneMap_find b k = map_of b k"
  by (induction b k rule: ZoneMap_find.induct) auto

lemma focused_value_leaf_list: "focused_value t d k = value_in (leaf_list t) d k"
  by (cases "key_value t")
     (auto simp: focused_value_def value_in_def leaf_list_def ZoneMap_find_map_of
       split: option.splits)

lemma value_in_notin: "k \<notin> fst ` set xs \<Longrightarrow> value_in xs d k = d"
  using map_of_eq_None_iff [of xs k] by (simp add: value_in_def)

lemma value_in_append_left: "k \<notin> fst ` set ys \<Longrightarrow> value_in (xs @ ys) d k = value_in xs d k"
  using map_of_eq_None_iff [of ys k]
  by (simp add: value_in_def map_add_def split: option.splits)

lemma value_in_append_right: "k \<notin> fst ` set xs \<Longrightarrow> value_in (xs @ ys) d k = value_in ys d k"
  using map_of_eq_None_iff [of xs k]
  by (simp add: value_in_def map_add_def split: option.splits)

lemma FindHash_loop_ptr_list:
  assumes ok: "zone_ok Hasher z" and a: "a < length z"
  shows "agree (key_hash (z ! a)) (HashValue (Hasher k)) d \<longrightarrow>
    (\<exists>r. FindHash_loop z (HashValue (Hasher k)) (Some a) d = Some r \<and>
       (\<forall>b. r = Some b \<longrightarrow> b < length z) \<and>
       (case r of None \<Rightarrow> d0 | Some b \<Rightarrow> focused_value (z ! b) d0 k) =
         value_in (ptr_list z (Some a) d) d0 k)"
  using ok a
proof (induction a d rule: ptr_induct)
  case (leaf a d)
  let ?g = "HashValue (Hasher k)" and ?t = "z ! a"
  note wf = zone_ok_wf [OF ok leaf(1)]
  show ?case
  proof
    assume ag: "agree (key_hash ?t) ?g d"
    show "\<exists>r. FindHash_loop z ?g (Some a) d = Some r \<and> (\<forall>b. r = Some b \<longrightarrow> b < length z) \<and>
       (case r of None \<Rightarrow> d0 | Some b \<Rightarrow> focused_value (z ! b) d0 k) =
         value_in (ptr_list z (Some a) d) d0 k"
    proof (cases "?g = key_hash ?t")
      case True
      with leaf wf show ?thesis
        by (simp add: FindHash_loop_Some_wf ptr_list_leaf focused_value_leaf_list)
    next
      case False
      from FindHash_skip_total [OF False agree_sym [OF ag]] obtain lv where
        sk: "FindHash_skip (?g XOR key_hash ?t) d = Some lv" by blast
      from FindHash_skip_range [OF sk] leaf(2) have "side ?t lv = None" by (simp add: side_def)
      with False sk leaf(1) wf have "FindHash_loop z ?g (Some a) d = Some None"
        by (simp add: FindHash_loop_Some_wf)
      moreover have "k \<notin> fst ` set (leaf_list ?t)"
        using leaf_list_hash [OF ok leaf(1)] False by auto
      ultimately show ?thesis using leaf(2) by (simp add: ptr_list_leaf value_in_notin)
    qed
  qed
next
  case (node a d)
  let ?g = "HashValue (Hasher k)" and ?t = "z ! a"
  let ?self = "ptr_list z (Some a) (d + 1)" and ?sub = "ptr_list z (side ?t d) (d + 1)"
  note wf = zone_ok_wf [OF ok node(1)]
  show ?case
  proof
    assume ag: "agree (key_hash ?t) ?g d"
    show "\<exists>r. FindHash_loop z ?g (Some a) d = Some r \<and> (\<forall>b. r = Some b \<longrightarrow> b < length z) \<and>
       (case r of None \<Rightarrow> d0 | Some b \<Rightarrow> focused_value (z ! b) d0 k) =
         value_in (ptr_list z (Some a) d) d0 k"
    proof (cases "hash_at ?g d = hash_at (key_hash ?t) d")
      case True
      with ag have "agree (key_hash ?t) ?g (d + 1)" by (simp add: agree_Suc)
      with node(4) obtain r where
        r: "FindHash_loop z ?g (Some a) (d + 1) = Some r" "\<forall>b. r = Some b \<longrightarrow> b < length z"
          "(case r of None \<Rightarrow> d0 | Some b \<Rightarrow> focused_value (z ! b) d0 k) = value_in ?self d0 k"
        by blast
      have "FindHash_loop z ?g (Some a) d = FindHash_loop z ?g (Some a) (d + 1)"
        using node(1,3) wf True by (intro FindHash_loop_shift) (auto simp: le_less_Suc_eq)
      moreover have "k \<notin> fst ` set ?sub"
        using ptr_list_side_bit [OF ok node(1)] True by force
      ultimately show ?thesis using r
        by (auto simp: ptr_list_node [OF ok node(1,2)] value_in_append_left value_in_append_right)
    next
      case False
      then have ne: "?g \<noteq> key_hash ?t" by auto
      have "FindHash_skip (?g XOR key_hash ?t) d = Some d"
        using node(3) False by (intro FindHash_skip_determ) auto
      with ne node(1) wf have f: "FindHash_loop z ?g (Some a) d = FindHash_loop z ?g (side ?t d) (d + 1)"
        by (simp add: FindHash_loop_Some_wf)
      have notself: "k \<notin> fst ` set ?self"
        using ptr_list_self_bit [OF ok node(1)] False by force
      show ?thesis
      proof (cases "side ?t d")
        case None
        with f notself show ?thesis
          by (simp add: ptr_list_node [OF ok node(1,2)] value_in_notin)
      next
        case (Some c)
        from zone_ok_side [OF ok node(1) Some] have
          ca: "agree (key_hash (z ! c)) (key_hash ?t) d"
          and cd: "hash_at (key_hash (z ! c)) d \<noteq> hash_at (key_hash ?t) d" by auto
        from ca ag have "agree (key_hash (z ! c)) ?g d" by (rule agree_trans)
        moreover have "hash_at (key_hash (z ! c)) d = hash_at ?g d"
          using hash_at_binary [OF node(3) cd] False by auto
        ultimately have "agree (key_hash (z ! c)) ?g (d + 1)" by (simp add: agree_Suc)
        with node(5) [OF Some] obtain r where
          r: "FindHash_loop z ?g (Some c) (d + 1) = Some r" "\<forall>b. r = Some b \<longrightarrow> b < length z"
            "(case r of None \<Rightarrow> d0 | Some b \<Rightarrow> focused_value (z ! b) d0 k) =
               value_in (ptr_list z (Some c) (d + 1)) d0 k"
          by blast
        with f notself Some show ?thesis
          by (auto simp: ptr_list_node [OF ok node(1,2)] value_in_append_left value_in_append_right)
      qed
    qed
  qed
qed

lemma Get_value_in:
  assumes ok: "zone_ok Hasher z" and m: "map_in z m"
  shows "Get Hasher z m k = Some (value_in (ptr_list z (tree_m m) 0) (def_value_m m) k)"
proof (cases "tree_m m")
  case None
  then show ?thesis by (simp add: Get_def FindHash_def value_in_def)
next
  case (Some a)
  with m have a: "a < length z" by (simp add: map_in_def)
  from FindHash_loop_ptr_list [OF ok a, of k 0 "def_value_m m"] obtain r where
    "FindHash_loop z (HashValue (Hasher k)) (Some a) 0 = Some r" "\<forall>b. r = Some b \<longrightarrow> b < length z"
    "(case r of None \<Rightarrow> def_value_m m | Some b \<Rightarrow> focused_value (z ! b) (def_value_m m) k) =
       value_in (ptr_list z (Some a) 0) (def_value_m m) k" by auto
  then show ?thesis
    by (cases r) (simp_all add: Get_def FindHash_def Some GetFocusedValue_Some)
qed

section \<open>The iterator visits the in-order list\<close>

lemma stack_list_cong:
  "(\<And>l. l < n \<Longrightarrow> hash_at h l = hash_at h' l \<and> path ! l = path' ! l) \<Longrightarrow>
   stack_list z h path n = stack_list z h' path' n"
proof (induction n)
  case 0
  show ?case by simp
next
  case (Suc n)
  from Suc.prems [of n] have "hash_at h n = hash_at h' n" "path ! n = path' ! n" by simp_all
  moreover have "stack_list z h path n = stack_list z h' path' n"
    using Suc.prems by (intro Suc.IH) simp
  ultimately show ?case by simp
qed

lemma stack_ok_cong:
  assumes "stack_ok z h path 0 n" "agree h h' n" "\<And>l. l < n \<Longrightarrow> path' ! l = path ! l"
  shows "stack_ok z h' path' 0 n"
  unfolding stack_ok_def
proof (intro allI impI)
  fix l assume l: "0 \<le> l \<and> l < n \<and> hash_at h' l = Some kLeft"
  with agree_at [OF assms(2), of l] have "hash_at h l = Some kLeft" by simp
  with assms(1) l have
    "case path ! l of None \<Rightarrow> True
     | Some c \<Rightarrow> c < length z \<and> agree (key_hash (z ! c)) h l \<and>
         hash_at (key_hash (z ! c)) l = Some kRight"
    unfolding stack_ok_def by blast
  moreover from assms(2) l have "agree h h' l" by (auto intro: agree_mono)
  ultimately show
    "case path' ! l of None \<Rightarrow> True
     | Some c \<Rightarrow> c < length z \<and> agree (key_hash (z ! c)) h' l \<and>
         hash_at (key_hash (z ! c)) l = Some kRight"
    using assms(3) [of l] l by (auto split: option.splits intro: agree_trans)
qed

lemma stack_ok_join:
  "stack_ok z h path 0 m \<Longrightarrow> stack_ok z h path m n \<Longrightarrow> stack_ok z h path 0 n"
  unfolding stack_ok_def
proof (intro allI impI)
  fix l
  assume a: "\<forall>l. 0 \<le> l \<and> l < m \<and> hash_at h l = Some kLeft \<longrightarrow>
        (case path ! l of None \<Rightarrow> True
         | Some c \<Rightarrow> c < length z \<and> agree (key_hash (z ! c)) h l \<and>
             hash_at (key_hash (z ! c)) l = Some kRight)"
    and b: "\<forall>l. m \<le> l \<and> l < n \<and> hash_at h l = Some kLeft \<longrightarrow>
        (case path ! l of None \<Rightarrow> True
         | Some c \<Rightarrow> c < length z \<and> agree (key_hash (z ! c)) h l \<and>
             hash_at (key_hash (z ! c)) l = Some kRight)"
    and l: "0 \<le> l \<and> l < n \<and> hash_at h l = Some kLeft"
  show "case path ! l of None \<Rightarrow> True
         | Some c \<Rightarrow> c < length z \<and> agree (key_hash (z ! c)) h l \<and>
             hash_at (key_hash (z ! c)) l = Some kRight"
  proof (cases "l < m")
    case True
    with a l show ?thesis by blast
  next
    case False
    then have "m \<le> l" by simp
    with b l show ?thesis by blast
  qed
qed

lemma GetChild_Some:
  assumes "a < length z" "wf_node (z ! a)" "d < kHashBits"
  shows "GetChild z (Some a) d b =
     Some (if hash_at (key_hash (z ! a)) d = Some b then Some a else side (z ! a) d)"
  using assms side_path_at [OF assms(2), of d]
  by (auto simp: GetChild_def zone_at_def hash_at_def)

lemma FindLeftmost_Some:
  assumes a: "a < length z" and wf: "wf_node (z ! a)"
  shows "FindLeftmost z (Some a) d path =
     (if d < length_t (z ! a) then
        (if hash_at (key_hash (z ! a)) d = Some kLeft then
           FindLeftmost z (Some a) (d + 1) (path[d := side (z ! a) d])
         else case side (z ! a) d of
                Some c \<Rightarrow> FindLeftmost z (Some c) (d + 1) (path[d := Some a])
              | None \<Rightarrow> FindLeftmost z (Some a) (d + 1) (path[d := None]))
      else Some (Some a, d, path))"
proof (cases "d < length_t (z ! a)")
  case False
  with a show ?thesis by (simp add: FindLeftmost.simps [of z "Some a"] zone_at_def)
next
  case True
  with wf have d: "d < kHashBits" by (simp add: wf_node_def)
  from hash_at_cases [OF d, of "key_hash (z ! a)"] show ?thesis
    using a True by (subst FindLeftmost.simps)
      (auto simp: zone_at_def GetChild_Some [OF a wf d] split: option.splits)
qed

lemma stack_list_update_above:
  "n \<le> d \<Longrightarrow> stack_list z h (path[d := p]) n = stack_list z h path n"
  by (rule stack_list_cong) simp

lemma FindLeftmost_spec:
  assumes ok: "zone_ok Hasher z"
  shows "a < length z \<Longrightarrow> d \<le> kHashBits \<Longrightarrow> length path = kHashBits \<Longrightarrow>
    \<exists>c lv path'. FindLeftmost z (Some a) d path = Some (Some c, lv, path') \<and>
      c < length z \<and> d \<le> lv \<and> lv \<le> kHashBits \<and> length_t (z ! c) \<le> lv \<and>
      length path' = kHashBits \<and> agree (key_hash (z ! c)) (key_hash (z ! a)) d \<and>
      (\<forall>i<d. path' ! i = path ! i) \<and> stack_ok z (key_hash (z ! c)) path' d lv \<and>
      leaf_list (z ! c) @ stack_list z (key_hash (z ! c)) path' lv =
        ptr_list z (Some a) d @ stack_list z (key_hash (z ! c)) path d"
proof (induction "kHashBits - d" arbitrary: a d path rule: less_induct)
  case less
  note a = less.prems(1)
  let ?t = "z ! a"
  note wf = zone_ok_wf [OF ok a]
  show ?case
  proof (cases "d < length_t ?t")
    case False
    then have "FindLeftmost z (Some a) d path = Some (Some a, d, path)"
      using a wf by (simp add: FindLeftmost_Some)
    moreover have "stack_ok z (key_hash ?t) path d d" by (auto simp: stack_ok_def)
    ultimately show ?thesis using False less.prems by (auto simp: ptr_list_leaf)
  next
    case True
    with wf have dk: "d < kHashBits" by (simp add: wf_node_def)
    define s where "s = (if hash_at (key_hash ?t) d = Some kLeft then a
                         else case side ?t d of Some c1 \<Rightarrow> c1 | None \<Rightarrow> a)"
    define p where "p = (if hash_at (key_hash ?t) d = Some kLeft then side ?t d
                         else case side ?t d of Some c1 \<Rightarrow> Some a | None \<Rightarrow> None)"
    have step: "FindLeftmost z (Some a) d path = FindLeftmost z (Some s) (d + 1) (path[d := p])"
      using True a wf by (simp add: FindLeftmost_Some s_def p_def split: option.splits)
    have s: "s < length z"
      using a zone_ok_side [OF ok a, of d] by (auto simp: s_def split: option.splits)
    have sa: "agree (key_hash (z ! s)) (key_hash ?t) d"
      using zone_ok_side [OF ok a, of d] by (auto simp: s_def split: option.splits)
    have "kHashBits - (d + 1) < kHashBits - d" using dk by simp
    moreover have "d + 1 \<le> kHashBits" using dk by simp
    moreover have "length (path[d := p]) = kHashBits" using less.prems(3) by simp
    ultimately obtain c lv path' where
      r: "FindLeftmost z (Some s) (d + 1) (path[d := p]) = Some (Some c, lv, path')"
      and c: "c < length z" and lv: "d + 1 \<le> lv" "lv \<le> kHashBits" "length_t (z ! c) \<le> lv"
      and len: "length path' = kHashBits"
      and cs: "agree (key_hash (z ! c)) (key_hash (z ! s)) (d + 1)"
      and frame: "\<forall>i<d + 1. path' ! i = (path[d := p]) ! i"
      and sok: "stack_ok z (key_hash (z ! c)) path' (d + 1) lv"
      and lst: "leaf_list (z ! c) @ stack_list z (key_hash (z ! c)) path' lv =
        ptr_list z (Some s) (d + 1) @ stack_list z (key_hash (z ! c)) (path[d := p]) (d + 1)"
      using less.hyps [OF _ s] by blast
    let ?h = "key_hash (z ! c)"
    have dp: "d < length path" using dk less.prems(3) by simp
    from frame dp have pd: "path' ! d = p" by simp
    from cs have csd: "agree ?h (key_hash (z ! s)) d" by (rule agree_mono) simp
    from csd sa have ca: "agree ?h (key_hash ?t) d" by (rule agree_trans)
    from cs have hd: "hash_at ?h d = hash_at (key_hash (z ! s)) d" by (auto dest: agree_at)
    have fr: "\<forall>i<d. path' ! i = path ! i" using frame by simp
    have lst2: "(if hash_at ?h d = Some kLeft then ptr_list z p (d + 1) else []) =
        (if hash_at (key_hash ?t) d = Some kLeft then ptr_list z (side ?t d) (d + 1)
         else case side ?t d of Some c1 \<Rightarrow> ptr_list z (Some a) (d + 1) | None \<Rightarrow> [])
      \<and> (case (if hash_at ?h d = Some kLeft then p else None) of
           None \<Rightarrow> True
         | Some c' \<Rightarrow> c' < length z \<and> agree (key_hash (z ! c')) ?h d \<and>
             hash_at (key_hash (z ! c')) d = Some kRight)"
    proof (cases "hash_at (key_hash ?t) d = Some kLeft")
      case True
      then have "s = a" "p = side ?t d" by (simp_all add: s_def p_def)
      with hd True have hl: "hash_at ?h d = Some kLeft" by simp
      have "c' < length z \<and> agree (key_hash (z ! c')) ?h d \<and>
             hash_at (key_hash (z ! c')) d = Some kRight" if "side ?t d = Some c'" for c'
      proof -
        from zone_ok_side [OF ok a that] a have "c' < length z"
          "agree (key_hash (z ! c')) (key_hash ?t) d"
          "hash_at (key_hash (z ! c')) d \<noteq> hash_at (key_hash ?t) d" by auto
        with True ca hash_at_cases [OF dk, of "key_hash (z ! c')"] show ?thesis
          by (auto intro: agree_trans agree_sym)
      qed
      with hl True \<open>p = side ?t d\<close> show ?thesis by (auto split: option.splits)
    next
      case False
      with hash_at_cases [OF dk, of "key_hash ?t"] have R: "hash_at (key_hash ?t) d = Some kRight"
        by auto
      show ?thesis
      proof (cases "side ?t d")
        case None
        with False have "s = a" "p = None" by (simp_all add: s_def p_def)
        with hd False None show ?thesis by simp
      next
        case (Some c1)
        with False have "s = c1" "p = Some a" by (simp_all add: s_def p_def)
        from zone_ok_side [OF ok a Some] R hash_at_cases [OF dk, of "key_hash (z ! c1)"]
        have "hash_at (key_hash (z ! c1)) d = Some kLeft" by auto
        with hd \<open>s = c1\<close> have hl: "hash_at ?h d = Some kLeft" by simp
        from ca have "agree (key_hash ?t) ?h d" by (rule agree_sym)
        with hl False Some \<open>p = Some a\<close> a R show ?thesis by simp
      qed
    qed
    have "stack_ok z ?h path' d lv"
      unfolding stack_ok_def
    proof (intro allI impI)
      fix l assume l: "d \<le> l \<and> l < lv \<and> hash_at ?h l = Some kLeft"
      show "case path' ! l of None \<Rightarrow> True
         | Some c' \<Rightarrow> c' < length z \<and> agree (key_hash (z ! c')) ?h l \<and>
             hash_at (key_hash (z ! c')) l = Some kRight"
      proof (cases "l = d")
        case True
        with l lst2 pd show ?thesis by auto
      next
        case False
        with l have "d + 1 \<le> l" by simp
        with sok l show ?thesis unfolding stack_ok_def by blast
      qed
    qed
    moreover have "leaf_list (z ! c) @ stack_list z ?h path' lv =
        ptr_list z (Some a) d @ stack_list z ?h path d"
    proof -
      have "stack_list z ?h (path[d := p]) (d + 1) =
          (if hash_at ?h d = Some kLeft then ptr_list z p (d + 1) else []) @ stack_list z ?h path d"
        using dp by (simp add: stack_list_update_above)
      moreover have "ptr_list z (Some s) (d + 1) @
          (if hash_at ?h d = Some kLeft then ptr_list z p (d + 1) else []) = ptr_list z (Some a) d"
        using lst2 by (auto simp: ptr_list_node [OF ok a True] s_def split: option.splits)
      ultimately show ?thesis using lst by (metis append_assoc)
    qed
    ultimately show ?thesis using step r c lv len ca fr by auto
  qed
qed

lemma iter_rest_end [simp]: "iter_rest z (iterator_end d) = []"
  by (simp add: iter_rest_def iterator_end_def)

lemma iter_ok_end [simp]: "iter_ok z (iterator_end d)"
  by (simp add: iter_ok_def iterator_end_def)

lemma is_end_end [simp]: "is_end (iterator_end d)"
  by (simp add: is_end_def iterator_end_def)

lemma def_value_end [simp]: "def_value_i (iterator_end d) = d"
  by (simp add: iterator_end_def)

lemma iter_rest_is_end: "is_end it \<Longrightarrow> iter_rest z it = []"
  by (simp add: iter_rest_def is_end_def)

lemma iter_current:
  assumes "iter_ok z it" "\<not> is_end it"
  obtains a where "current_i it = Some a" "a < length z"
    "bucket_pos (z ! a) it < length (leaf_list (z ! a))"
  using assms by (auto simp: iter_ok_def is_end_def split: option.splits)

lemma iterator_deref_rest:
  assumes "iter_ok z it" "\<not> is_end it"
  shows "iter_rest z it \<noteq> [] \<and> iterator_deref z it = Some (hd (iter_rest z it))"
proof -
  from assms obtain a where a: "current_i it = Some a" "a < length z"
    and j: "bucket_pos (z ! a) it < length (leaf_list (z ! a))" by (rule iter_current)
  from j have "drop (bucket_pos (z ! a) it) (leaf_list (z ! a)) \<noteq> []" by simp
  moreover from j have "hd (drop (bucket_pos (z ! a) it) (leaf_list (z ! a))) =
      leaf_list (z ! a) ! bucket_pos (z ! a) it" by (simp add: hd_drop_conv_nth)
  moreover have "iterator_deref z it = Some (leaf_list (z ! a) ! bucket_pos (z ! a) it)"
    using a j by (auto simp: iterator_deref_def zone_at_def leaf_list_def bucket_pos_def
        split: option.splits)
  ultimately show ?thesis using a by (simp add: iter_rest_def)
qed

lemma iter_rest_hd_hash:
  assumes ok: "zone_ok Hasher z" and "iter_ok z it" "current_i it = Some a"
  shows "HashValue (Hasher (fst (hd (iter_rest z it)))) = key_hash (z ! a)"
proof -
  from assms(2,3) have a: "a < length z"
    and j: "bucket_pos (z ! a) it < length (leaf_list (z ! a))"
    by (auto simp: iter_ok_def)
  then have "hd (iter_rest z it) = leaf_list (z ! a) ! bucket_pos (z ! a) it"
    using assms(3) by (simp add: iter_rest_def hd_append hd_drop_conv_nth)
  with j have "hd (iter_rest z it) \<in> set (leaf_list (z ! a))" by simp
  from leaf_list_hash [OF ok a this] show ?thesis .
qed

lemma map_begin_spec:
  assumes ok: "zone_ok Hasher z" and m: "map_in z m"
  shows "\<exists>it. map_begin z m = Some it \<and> iter_ok z it \<and> def_value_i it = def_value_m m \<and>
    iter_rest z it = ptr_list z (tree_m m) 0"
proof (cases "tree_m m")
  case None
  then show ?thesis by (simp add: map_begin_def)
next
  case (Some a)
  with m have a: "a < length z" by (simp add: map_in_def)
  from FindLeftmost_spec [OF ok a, of 0 "replicate kHashBits None"] obtain c lv path' where
    r: "FindLeftmost z (Some a) 0 (replicate kHashBits None) = Some (Some c, lv, path')"
    and c: "c < length z" and lv: "lv \<le> kHashBits" "length_t (z ! c) \<le> lv"
    and len: "length path' = kHashBits"
    and sok: "stack_ok z (key_hash (z ! c)) path' 0 lv"
    and lst: "leaf_list (z ! c) @ stack_list z (key_hash (z ! c)) path' lv = ptr_list z (Some a) 0"
    by auto
  let ?it = "\<lparr>level_i = lv, more_iter_i = 0, current_i = Some c, path_i = path',
              def_value_i = def_value_m m\<rparr>"
  have "map_begin z m = Some ?it"
    using r c by (simp add: map_begin_def Some iterator_begin_def zone_at_def)
  moreover have "bucket_pos (z ! c) ?it = 0" by (simp add: bucket_pos_def split: option.splits)
  moreover from this have "iter_ok z ?it"
    using c lv len sok leaf_list_not_Nil [OF ok c] by (simp add: iter_ok_def)
  ultimately show ?thesis using lst Some by (simp add: iter_rest_def)
qed

lemma iterator_climb_spec:
  "lv < kHashBits \<Longrightarrow>
   (case iterator_climb h path lv of
      None \<Rightarrow> False
    | Some None \<Rightarrow> stack_list z h path (lv + 1) = []
    | Some (Some l) \<Rightarrow> l \<le> lv \<and> hash_at h l = Some kLeft \<and> path ! l \<noteq> None \<and>
        stack_list z h path (lv + 1) = ptr_list z (path ! l) (l + 1) @ stack_list z h path l)"
proof (induction lv)
  case 0
  with hash_at_cases [of 0 h] show ?case
    by (subst iterator_climb.simps) auto
next
  case (Suc lv)
  from Suc.prems hash_at_cases [of "Suc lv" h]
  consider "hash_at h (Suc lv) = Some kLeft" "path ! Suc lv \<noteq> None"
    | "hash_at h (Suc lv) = Some kRight \<or> path ! Suc lv = None"
      "hash_at h (Suc lv) = Some kRight \<or> hash_at h (Suc lv) = Some kLeft" by auto
  then show ?case
  proof cases
    case 1
    then show ?thesis by (subst iterator_climb.simps) auto
  next
    case 2
    then have "iterator_climb h path (Suc lv) = iterator_climb h path lv"
      by (subst iterator_climb.simps) auto
    moreover from 2 have "stack_list z h path (Suc lv + 1) = stack_list z h path (lv + 1)"
      by auto
    moreover from Suc.prems have "lv < kHashBits" by simp
    note Suc.IH [OF this]
    ultimately show ?thesis by (auto split: option.splits)
  qed
qed

lemma tl_drop_append: "j < length xs \<Longrightarrow> tl (drop j xs @ ys) = drop (Suc j) xs @ ys"
  by (simp add: drop_Suc tl_drop)

lemma iterator_body_spec:
  assumes ok: "zone_ok Hasher z" and io: "iter_ok z it" and ne: "\<not> is_end it"
  shows "\<exists>again it'. iterator_body z it = Some (again, it') \<and> iter_ok z it' \<and>
    iter_rest z it' = tl (iter_rest z it) \<and> def_value_i it' = def_value_i it \<and>
    (again \<longrightarrow> \<not> is_end it')"
proof -
  from io ne obtain a where cur: "current_i it = Some a" and a: "a < length z"
    and lv: "length_t (z ! a) \<le> level_i it" "level_i it \<le> kHashBits"
    and len: "length (path_i it) = kHashBits"
    and j: "bucket_pos (z ! a) it < length (leaf_list (z ! a))"
    and sok: "stack_ok z (key_hash (z ! a)) (path_i it) 0 (level_i it)"
    by (auto simp: iter_ok_def is_end_def split: option.splits)
  let ?t = "z ! a" and ?h = "key_hash (z ! a)" and ?P = "path_i it" and ?L = "level_i it"
  let ?j = "bucket_pos ?t it"
  have rest: "iter_rest z it = drop ?j (leaf_list ?t) @ stack_list z ?h ?P ?L"
    using cur by (simp add: iter_rest_def)
  show ?thesis
  proof (cases "\<exists>b. more_t ?t = Some b \<and> more_iter_i it + 1 \<noteq> length b")
    case True
    then obtain b where b: "more_t ?t = Some b" "more_iter_i it + 1 \<noteq> length b" by blast
    with j have jb: "more_iter_i it < length b" "?j = more_iter_i it" "leaf_list ?t = b"
      by (simp_all add: bucket_pos_def leaf_list_def)
    let ?it = "it\<lparr>more_iter_i := more_iter_i it + 1\<rparr>"
    have "iterator_body z it = Some (False, ?it)"
      using cur a b jb by (simp add: iterator_body_def zone_at_def)
    moreover have bp: "bucket_pos ?t ?it = Suc (more_iter_i it)"
      using b by (simp add: bucket_pos_def)
    moreover have "iter_ok z ?it"
      using cur a lv len sok jb b bp by (simp add: iter_ok_def)
    moreover have "iter_rest z ?it = tl (iter_rest z it)"
      using cur jb bp by (simp add: iter_rest_def drop_Suc tl_drop)
    ultimately show ?thesis by auto
  next
    case False
    define it1 where "it1 = (case more_t ?t of None \<Rightarrow> it
                             | Some b \<Rightarrow> it\<lparr>more_iter_i := more_iter_i it + 1\<rparr>)"
    have it1: "level_i it1 = ?L" "path_i it1 = ?P" "def_value_i it1 = def_value_i it"
      by (simp_all add: it1_def split: option.splits)
    have inner: "(case more_t ?t of
                    None \<Rightarrow> Some (it, False)
                  | Some bucket \<Rightarrow>
                      if more_iter_i it < length bucket then
                        Some (it\<lparr>more_iter_i := more_iter_i it + 1\<rparr>,
                              more_iter_i it + 1 \<noteq> length bucket)
                      else None) = Some (it1, False)"
      using False j by (auto simp: it1_def bucket_pos_def leaf_list_def split: option.splits)
    have "Suc ?j = length (leaf_list ?t)"
      using False j by (auto simp: bucket_pos_def leaf_list_def split: option.splits)
    then have "drop (Suc ?j) (leaf_list ?t) = []" by simp
    with j have tl: "tl (iter_rest z it) = stack_list z ?h ?P ?L"
      unfolding rest by (simp only: tl_drop_append append_Nil)
    have body: "iterator_body z it =
       (if level_i it1 = 0 then Some (False, iterator_end (def_value_i it1))
        else case iterator_climb ?h (path_i it1) (level_i it1 - 1) of
               None \<Rightarrow> None
             | Some None \<Rightarrow> Some (False, iterator_end (def_value_i it1))
             | Some (Some l) \<Rightarrow>
                 (case FindLeftmost z (path_i it1 ! l) (l + 1) (path_i it1) of
                    None \<Rightarrow> None
                  | Some (cur, lv1, pth) \<Rightarrow>
                      (case cur of
                         None \<Rightarrow> None
                       | Some a1 \<Rightarrow>
                           (case zone_at z a1 of
                              None \<Rightarrow> None
                            | Some t1 \<Rightarrow>
                                Some (True,
                                  it1\<lparr>level_i := lv1, current_i := cur, path_i := pth,
                                      more_iter_i :=
                                        (case more_t t1 of
                                           None \<Rightarrow> more_iter_i it1
                                         | Some bucket \<Rightarrow> 0)\<rparr>)))))"
      using cur a inner by (simp add: iterator_body_def zone_at_def)
    show ?thesis
    proof (cases "?L = 0")
      case True
      with body tl it1 show ?thesis by auto
    next
      case L: False
      with lv have "?L - 1 < kHashBits" by simp
      note climb = iterator_climb_spec [OF this, where h = ?h and path = ?P and z = z]
      show ?thesis
      proof (cases "iterator_climb ?h ?P (?L - 1)")
        case None
        with climb show ?thesis by simp
      next
        case (Some r)
        show ?thesis
        proof (cases r)
          case None
          with Some climb L body tl it1 show ?thesis by auto
        next
          case (Some l)
          with \<open>iterator_climb ?h ?P (?L - 1) = Some r\<close> climb L obtain c0 where
            l: "l < ?L" "hash_at ?h l = Some kLeft" and c0: "?P ! l = Some c0"
            and st: "stack_list z ?h ?P ?L = ptr_list z (Some c0) (l + 1) @ stack_list z ?h ?P l"
            by auto
          from sok l c0 have c0z: "c0 < length z" and c0a: "agree (key_hash (z ! c0)) ?h l"
            and c0r: "hash_at (key_hash (z ! c0)) l = Some kRight"
            unfolding stack_ok_def by (auto split: option.splits)
          from l lv have l1: "l + 1 \<le> kHashBits" by simp
          from FindLeftmost_spec [OF ok c0z l1 len] obtain c lv1 path' where
            r: "FindLeftmost z (Some c0) (l + 1) ?P = Some (Some c, lv1, path')"
            and c: "c < length z" and lv1: "l + 1 \<le> lv1" "lv1 \<le> kHashBits"
              "length_t (z ! c) \<le> lv1"
            and len': "length path' = kHashBits"
            and cc0: "agree (key_hash (z ! c)) (key_hash (z ! c0)) (l + 1)"
            and frame: "\<forall>i<l + 1. path' ! i = ?P ! i"
            and sok': "stack_ok z (key_hash (z ! c)) path' (l + 1) lv1"
            and lst: "leaf_list (z ! c) @ stack_list z (key_hash (z ! c)) path' lv1 =
              ptr_list z (Some c0) (l + 1) @ stack_list z (key_hash (z ! c)) ?P (l + 1)"
            by blast
          let ?h' = "key_hash (z ! c)"
          let ?it = "it1\<lparr>level_i := lv1, current_i := Some c, path_i := path',
                        more_iter_i := (case more_t (z ! c) of None \<Rightarrow> more_iter_i it1
                                        | Some bucket \<Rightarrow> 0)\<rparr>"
          have b: "iterator_body z it = Some (True, ?it)"
            using body L \<open>iterator_climb ?h ?P (?L - 1) = Some r\<close> Some c0 r c it1
            by (simp add: zone_at_def)
          have bp: "bucket_pos (z ! c) ?it = 0"
            by (simp add: bucket_pos_def split: option.splits)
          from cc0 have hl: "hash_at ?h' l = Some kRight"
            using agree_at [OF cc0, of l] c0r by simp
          from cc0 have "agree ?h' (key_hash (z ! c0)) l" by (rule agree_mono) simp
          from this c0a have hh: "agree ?h' ?h l" by (rule agree_trans)
          have "stack_list z ?h' ?P (l + 1) = stack_list z ?h ?P l"
            using hl agree_at [OF hh] by (simp add: stack_list_cong [of l ?h' ?h ?P ?P])
          with lst st tl have rest': "leaf_list (z ! c) @ stack_list z ?h' path' lv1 =
              tl (iter_rest z it)" by simp
          have "stack_ok z ?h ?P 0 l"
            using sok l unfolding stack_ok_def by auto
          from stack_ok_cong [OF this agree_sym [OF hh], of path'] frame
          have "stack_ok z ?h' path' 0 l" by simp
          moreover have "stack_ok z ?h' path' l (l + 1)"
            using hl unfolding stack_ok_def by (auto simp: le_less_Suc_eq)
          ultimately have "stack_ok z ?h' path' 0 (l + 1)" by (rule stack_ok_join)
          from stack_ok_join [OF this sok'] have "stack_ok z ?h' path' 0 lv1" .
          then have "iter_ok z ?it"
            using c lv1 len' bp leaf_list_not_Nil [OF ok c] by (simp add: iter_ok_def)
          moreover have "iter_rest z ?it = tl (iter_rest z it)"
            using rest' bp by (simp add: iter_rest_def)
          ultimately show ?thesis using b it1 by (auto simp: is_end_def)
        qed
      qed
    qed
  qed
qed

text \<open>\<^verbatim>\<open>operator++\<close> returns, and moves the iterator forward in the in-order list by one
  pair and by some pairs with the default value.\<close>

lemma iterator_inc_spec:
  assumes ok: "zone_ok Hasher z"
  shows "iter_ok z it \<Longrightarrow>
    \<exists>it' sk. iterator_inc z it = Some it' \<and> iter_ok z it' \<and>
      def_value_i it' = def_value_i it \<and> tl (iter_rest z it) = sk @ iter_rest z it' \<and>
      (\<forall>x \<in> set sk. snd x = def_value_i it)"
proof (induction "length (iter_rest z it)" arbitrary: it rule: less_induct)
  case less
  show ?case
  proof (cases "is_end it")
    case True
    with less.prems show ?thesis
      by (auto simp: iterator_inc_end iter_rest_is_end)
  next
    case False
    from iterator_body_spec [OF ok less.prems False] obtain again it1 where
      b: "iterator_body z it = Some (again, it1)" and ok1: "iter_ok z it1"
      and r1: "iter_rest z it1 = tl (iter_rest z it)"
      and d1: "def_value_i it1 = def_value_i it" and e1: "again \<longrightarrow> \<not> is_end it1" by blast
    from iterator_deref_rest [OF less.prems False] have ne: "iter_rest z it \<noteq> []" by simp
    show ?thesis
    proof (cases "again \<and> snd (hd (iter_rest z it1)) = def_value_i it1")
      case False
      have "iterator_inc z it = Some it1"
      proof (cases again)
        case True
        with e1 iterator_deref_rest [OF ok1] False b show ?thesis
          by (subst iterator_inc.simps) simp
      next
        case False
        with b show ?thesis by (subst iterator_inc.simps) simp
      qed
      with ok1 r1 d1 show ?thesis by auto
    next
      case True
      with e1 have n1: "\<not> is_end it1" by simp
      from iterator_deref_rest [OF ok1 n1] have ne1: "iter_rest z it1 \<noteq> []"
        and dr: "iterator_deref z it1 = Some (hd (iter_rest z it1))" by simp_all
      from True b dr have inc: "iterator_inc z it = iterator_inc z it1"
        by (subst iterator_inc.simps) simp
      from r1 ne have "length (iter_rest z it1) < length (iter_rest z it)" by simp
      from less.hyps [OF this ok1] obtain it' sk where
        i: "iterator_inc z it1 = Some it'" "iter_ok z it'" "def_value_i it' = def_value_i it1"
          "tl (iter_rest z it1) = sk @ iter_rest z it'" "\<forall>x \<in> set sk. snd x = def_value_i it1"
        by blast
      from ne1 i(4) have "iter_rest z it1 = (hd (iter_rest z it1) # sk) @ iter_rest z it'"
        by (cases "iter_rest z it1") simp_all
      with r1 have "tl (iter_rest z it) = (hd (iter_rest z it1) # sk) @ iter_rest z it'" by simp
      moreover have "\<forall>x \<in> set (hd (iter_rest z it1) # sk). snd x = def_value_i it"
        using True i(5) d1 by simp
      ultimately show ?thesis using inc i(1,2,3) d1 by metis
    qed
  qed
qed

lemma iterator_eq_is_end: "is_end e \<Longrightarrow> iterator_eq z it e = Some (is_end it)"
  by (simp add: iterator_eq_def)

text \<open>The range-based loop returns, and the pairs it yields are pairs of the in-order
  list in its order.\<close>

lemma iterator_range_spec:
  assumes ok: "zone_ok Hasher z" and e: "is_end e"
  shows "iter_ok z it \<Longrightarrow> sorted_wrt R (iter_rest z it) \<Longrightarrow>
    \<exists>ys. iterator_range z it e = Some ys \<and> set ys \<subseteq> set (iter_rest z it) \<and> sorted_wrt R ys"
proof (induction "length (iter_rest z it)" arbitrary: it rule: less_induct)
  case less
  show ?case
  proof (cases "is_end it")
    case True
    then show ?thesis
      by (subst iterator_range.simps) (simp add: iterator_eq_is_end [OF e])
  next
    case False
    from iterator_deref_rest [OF less.prems(1) False] have ne: "iter_rest z it \<noteq> []"
      and dr: "iterator_deref z it = Some (hd (iter_rest z it))" by simp_all
    from iterator_inc_spec [OF ok less.prems(1)] obtain it' sk where
      i: "iterator_inc z it = Some it'" "iter_ok z it'"
        "tl (iter_rest z it) = sk @ iter_rest z it'" by blast
    from ne i(3) have rest: "iter_rest z it = hd (iter_rest z it) # sk @ iter_rest z it'"
      by (cases "iter_rest z it") simp_all
    then have "length (iter_rest z it') < length (iter_rest z it)"
      by (metis length_append length_Cons less_Suc_eq_le le_add2)
    moreover from less.prems(2) rest have s': "sorted_wrt R (iter_rest z it')"
      and hd: "\<forall>y \<in> set (iter_rest z it'). R (hd (iter_rest z it)) y"
      by (metis sorted_wrt.simps(2) sorted_wrt_append, metis sorted_wrt.simps(2) Un_iff set_append)
    ultimately obtain ys where
      ys: "iterator_range z it' e = Some ys" "set ys \<subseteq> set (iter_rest z it')" "sorted_wrt R ys"
      using less.hyps [of it'] i(2) by blast
    have "iterator_range z it e = Some (hd (iter_rest z it) # ys)"
      using False dr i(1) ys(1)
      by (subst iterator_range.simps) (simp add: iterator_eq_is_end [OF e])
    moreover have "set (hd (iter_rest z it) # ys) \<subseteq> set (iter_rest z it)"
      using ys(2) by (subst (2) rest) auto
    moreover have "sorted_wrt R (hd (iter_rest z it) # ys)"
      using ys(2,3) hd by auto
    ultimately show ?thesis by blast
  qed
qed

lemma map_pairs_sorted:
  assumes ok: "zone_ok Hasher z" and m: "map_in z m"
  shows "\<exists>ys. map_pairs z m = Some ys \<and> set ys \<subseteq> set (ptr_list z (tree_m m) 0) \<and>
    sorted_wrt (entry_less Hasher) ys"
proof -
  from map_begin_spec [OF ok m] obtain it where
    it: "map_begin z m = Some it" "iter_ok z it" "iter_rest z it = ptr_list z (tree_m m) 0"
    by blast
  have "sorted_wrt (entry_less Hasher) (ptr_list z (tree_m m) 0)"
  proof (cases "tree_m m")
    case None then show ?thesis by simp
  next
    case (Some a)
    with m have "a < length z" by (simp add: map_in_def)
    from ptr_list_sorted [OF ok this] Some show ?thesis by simp
  qed
  with iterator_range_spec [OF ok _ it(2), of "map_end m" "entry_less Hasher"] it
  show ?thesis by (simp add: map_pairs_def map_end_def)
qed

text \<open>C7 (iteration order): the iteration over a map returns, and in the sequence of the
  pairs it yields each pair is below every later one in the order that compares the
  hashes of the keys as unsigned numbers first and the keys second.\<close>

theorem iteration_order:
  assumes "zone_built Hasher z" and "map_in z m"
  shows "\<exists>ys. map_pairs z m = Some ys \<and> sorted_wrt (entry_less Hasher) ys"
  using map_pairs_sorted [OF zone_built_ok [OF assms(1)] assms(2)] by blast

theorem iteration_order_witness:
  "zone_built ex_Hasher ex_zone2 \<and> map_in ex_zone2 ex_map2 \<and>
   map_pairs ex_zone2 ex_map2 = Some [(1, 10), (2, 20)] \<and>
   sorted_wrt (entry_less ex_Hasher) [(1, 10), (2, 20 :: int)]"
proof -
  have "map_pairs ex_zone2 ex_map2 = Some [(1, 10), (2, 20)]" by code_simp
  with iteration_order [OF ex_built2 ex_in2] ex_built2 ex_in2 show ?thesis by simp
qed

section \<open>The double iterator and equality\<close>

lemma sorted_entry_distinct:
  "sorted_wrt (entry_less Hasher) (xs @ ys) \<Longrightarrow> x \<in> set xs \<Longrightarrow> y \<in> set ys \<Longrightarrow> fst x \<noteq> fst y"
  by (auto simp: sorted_wrt_append dest: entry_less_neq)

lemma value_in_skip:
  assumes s: "sorted_wrt (entry_less Hasher) (sk @ r)" and d: "\<forall>x \<in> set sk. snd x = d"
  shows "value_in (sk @ r) d k = value_in r d k"
proof (cases "k \<in> fst ` set sk")
  case False
  then show ?thesis by (rule value_in_append_right)
next
  case True
  then obtain v where v: "map_of sk k = Some v"
    using map_of_eq_None_iff [of sk k] by (cases "map_of sk k") auto
  then have "(k, v) \<in> set sk" by (rule map_of_SomeD)
  with d have "v = d" by force
  moreover have "k \<notin> fst ` set r"
    using True sorted_entry_distinct [OF s] by force
  ultimately show ?thesis
    using v by (simp add: value_in_notin) (simp add: value_in_def map_add_def)
qed

lemma value_in_hd: "value_in (x # r) d (fst x) = snd x"
  by (cases x) (simp add: value_in_def)

lemma value_in_Cons_other: "k \<noteq> fst x \<Longrightarrow> value_in (x # r) d k = value_in r d k"
  by (cases x) (simp add: value_in_def)

lemma key_notin_later:
  assumes "sorted_wrt (entry_less Hasher) (y # r)" "entry_less Hasher x y"
  shows "fst x \<notin> fst ` set (y # r)"
proof
  assume "fst x \<in> fst ` set (y # r)"
  then obtain w where w: "fst x = fst w" "w \<in> set (y # r)" by (rule imageE)
  with assms have "entry_less Hasher x w" by (auto intro: entry_less_trans)
  with w(1) show False by (auto dest: entry_less_neq)
qed

lemma iter_rest_Nil_iff: "iter_ok z it \<Longrightarrow> iter_rest z it = [] \<longleftrightarrow> is_end it"
  using iterator_deref_rest [of z it] iter_rest_is_end [of it z] by auto

lemma iterator_compare:
  assumes ok: "zone_ok Hasher z" and a: "iter_ok z a" "\<not> is_end a" and b: "iter_ok z b" "\<not> is_end b"
  shows "iterator_eq z a b = Some (fst (hd (iter_rest z a)) = fst (hd (iter_rest z b))) \<and>
         iterator_less z a b = Some (entry_less Hasher (hd (iter_rest z a)) (hd (iter_rest z b)))"
proof -
  from a obtain ca where ca: "current_i a = Some ca" "ca < length z"
    by (auto elim: iter_current)
  from b obtain cb where cb: "current_i b = Some cb" "cb < length z"
    by (auto elim: iter_current)
  note ha = iter_rest_hd_hash [OF ok a(1) ca(1)] and hb = iter_rest_hd_hash [OF ok b(1) cb(1)]
  from iterator_deref_rest [OF a] have da: "iterator_deref z a = Some (hd (iter_rest z a))" by simp
  from iterator_deref_rest [OF b] have db: "iterator_deref z b = Some (hd (iter_rest z b))" by simp
  from ha hb have "iterator_eq z a b = Some (fst (hd (iter_rest z a)) = fst (hd (iter_rest z b)))"
    using a(2) b(2) ca cb da db by (auto simp: iterator_eq_def zone_at_def)
  moreover from ha hb
  have "iterator_less z a b = Some (entry_less Hasher (hd (iter_rest z a)) (hd (iter_rest z b)))"
    using a(2) b(2) ca cb da db
    by (auto simp: iterator_less_def zone_at_def entry_less_def)
  ultimately show ?thesis by simp
qed

lemma double_iterator_spec:
  assumes ok: "zone_ok Hasher z" and a: "iter_ok z a" and b: "iter_ok z b"
  shows "double_iterator z a b =
     Some \<lparr>first_d = a, second_d = b,
           first_current_d = fst (zip_flags Hasher (iter_rest z a) (iter_rest z b)),
           second_current_d = snd (zip_flags Hasher (iter_rest z a) (iter_rest z b))\<rparr>"
proof (cases "is_end a")
  case True
  then have ra: "iter_rest z a = []" by (rule iter_rest_is_end)
  show ?thesis
  proof (cases "is_end b")
    case True
    with \<open>is_end a\<close> ra iter_rest_is_end [OF True, of z] show ?thesis
      by (simp add: double_iterator_def iterator_eq_def)
  next
    case False
    with iter_rest_Nil_iff [OF b] obtain y ys where "iter_rest z b = y # ys"
      by (cases "iter_rest z b") auto
    with \<open>is_end a\<close> False ra show ?thesis
      by (simp add: double_iterator_def iterator_eq_def iterator_less_def)
  qed
next
  case False
  with iter_rest_Nil_iff [OF a] obtain x xs where ra: "iter_rest z a = x # xs"
    by (cases "iter_rest z a") auto
  show ?thesis
  proof (cases "is_end b")
    case True
    with False ra iter_rest_is_end [OF True, of z] show ?thesis
      by (simp add: double_iterator_def iterator_eq_def iterator_less_def)
  next
    case nb: False
    with iter_rest_Nil_iff [OF b] obtain y ys where rb: "iter_rest z b = y # ys"
      by (cases "iter_rest z b") auto
    from iterator_compare [OF ok a False b nb] ra rb show ?thesis
      by (simp add: double_iterator_def)
  qed
qed

lemma entry_less_total: "fst x \<noteq> fst y \<Longrightarrow> \<not> entry_less Hasher x y \<Longrightarrow> entry_less Hasher y x"
  using hash_less_linear [of "HashValue (Hasher (fst x))" "HashValue (Hasher (fst y))"]
  by (auto simp: entry_less_def)

lemma inc_values:
  assumes ok: "zone_ok Hasher z" and io: "iter_ok z it" and ne: "\<not> is_end it"
    and so: "sorted_wrt (entry_less Hasher) (iter_rest z it)" and dv: "def_value_i it = dv"
  shows "\<exists>it'. iterator_inc z it = Some it' \<and> iter_ok z it' \<and> def_value_i it' = dv \<and>
    sorted_wrt (entry_less Hasher) (iter_rest z it') \<and>
    length (iter_rest z it') < length (iter_rest z it) \<and>
    (\<forall>k. k \<noteq> fst (hd (iter_rest z it)) \<longrightarrow>
       value_in (iter_rest z it') dv k = value_in (iter_rest z it) dv k) \<and>
    value_in (iter_rest z it') dv (fst (hd (iter_rest z it))) = dv"
proof -
  from iterator_deref_rest [OF io ne] have nn: "iter_rest z it \<noteq> []" by simp
  from iterator_inc_spec [OF ok io] dv obtain it' sk where
    i: "iterator_inc z it = Some it'" "iter_ok z it'" "def_value_i it' = dv"
      "tl (iter_rest z it) = sk @ iter_rest z it'" "\<forall>x \<in> set sk. snd x = dv" by auto
  let ?x = "hd (iter_rest z it)" and ?r = "iter_rest z it'"
  from nn i(4) have rest: "iter_rest z it = ?x # sk @ ?r" by (cases "iter_rest z it") simp_all
  with so have s1: "sorted_wrt (entry_less Hasher) (?x # sk @ ?r)" by simp
  then have s2: "sorted_wrt (entry_less Hasher) (sk @ ?r)" by simp
  then have s3: "sorted_wrt (entry_less Hasher) ?r" by (simp add: sorted_wrt_append)
  have len: "length ?r < length (iter_rest z it)"
    using arg_cong [OF rest, of length] by simp
  have other: "value_in ?r dv k = value_in (iter_rest z it) dv k" if "k \<noteq> fst ?x" for k
  proof -
    have "value_in (iter_rest z it) dv k = value_in (sk @ ?r) dv k"
      using that by (subst rest) (simp add: value_in_Cons_other)
    also have "\<dots> = value_in ?r dv k" using s2 i(5) by (rule value_in_skip)
    finally show ?thesis by simp
  qed
  have "fst ?x \<notin> fst ` set ?r"
    using s1 by (auto simp: sorted_wrt_append dest!: entry_less_neq)
  then have "value_in ?r dv (fst ?x) = dv" by (rule value_in_notin)
  with i(1,2,3) s3 len other show ?thesis by blast
qed

lemma value_in_rest_hd:
  "iter_rest z it \<noteq> [] \<Longrightarrow>
   value_in (iter_rest z it) dv (fst (hd (iter_rest z it))) = snd (hd (iter_rest z it))"
  by (cases "iter_rest z it") (simp_all add: value_in_hd)

lemma double_neq_end:
  assumes "is_end (first_d e)" "is_end (second_d e)"
  shows "double_neq z d e = Some (\<not> is_end (first_d d) \<or> \<not> is_end (second_d d))"
  using assms by (simp add: double_neq_def iterator_eq_is_end)

lemma side_step:
  assumes ok: "zone_ok Hasher z" and io: "iter_ok z it"
    and so: "sorted_wrt (entry_less Hasher) (iter_rest z it)" and dv: "def_value_i it = dv"
    and cur: "cur \<longrightarrow> \<not> is_end it \<and> fst (hd (iter_rest z it)) = k0"
    and notcur: "\<not> cur \<longrightarrow> value_in (iter_rest z it) dv k0 = dv"
  shows "\<exists>it'. (if cur then iterator_inc z it else Some it) = Some it' \<and> iter_ok z it' \<and>
    def_value_i it' = dv \<and> sorted_wrt (entry_less Hasher) (iter_rest z it') \<and>
    length (iter_rest z it') \<le> length (iter_rest z it) \<and>
    (cur \<longrightarrow> length (iter_rest z it') < length (iter_rest z it)) \<and>
    (\<forall>k. k \<noteq> k0 \<longrightarrow> value_in (iter_rest z it') dv k = value_in (iter_rest z it) dv k) \<and>
    value_in (iter_rest z it') dv k0 = dv"
proof (cases cur)
  case True
  with cur have ne: "\<not> is_end it" and k0: "fst (hd (iter_rest z it)) = k0" by simp_all
  from inc_values [OF ok io ne so dv] True k0 show ?thesis by auto
next
  case False
  with io so dv notcur show ?thesis by auto
qed

text \<open>What the double iterator yields at a position that is not the end: a key, and the
  values of the key in the rest of both maps.\<close>

lemma double_deref_spec:
  fixes a b :: "'v iterator" and z :: "('k::linorder, 'v) Zone"
  assumes ok: "zone_ok Hasher z" and a: "iter_ok z a" and b: "iter_ok z b"
    and sa: "sorted_wrt (entry_less Hasher) (iter_rest z a)"
    and sb: "sorted_wrt (entry_less Hasher) (iter_rest z b)"
    and da: "def_value_i a = dv" and db: "def_value_i b = dv"
    and ne: "\<not> (is_end a \<and> is_end b)"
  defines "fc \<equiv> fst (zip_flags Hasher (iter_rest z a) (iter_rest z b))"
    and "sc \<equiv> snd (zip_flags Hasher (iter_rest z a) (iter_rest z b))"
  shows "\<exists>k0 va vb.
    double_deref z \<lparr>first_d = a, second_d = b, first_current_d = fc, second_current_d = sc\<rparr> =
      Some (k0, va, vb) \<and>
    value_in (iter_rest z a) dv k0 = va \<and> value_in (iter_rest z b) dv k0 = vb \<and>
    (fc \<longrightarrow> \<not> is_end a \<and> fst (hd (iter_rest z a)) = k0) \<and> (\<not> fc \<longrightarrow> va = dv) \<and>
    (sc \<longrightarrow> \<not> is_end b \<and> fst (hd (iter_rest z b)) = k0) \<and> (\<not> sc \<longrightarrow> vb = dv) \<and>
    (fc \<or> sc)"
proof -
  let ?ra = "iter_rest z a" and ?rb = "iter_rest z b"
  let ?d = "\<lparr>first_d = a, second_d = b, first_current_d = fc, second_current_d = sc\<rparr>"
  have dra: "iterator_deref z a = Some (hd ?ra)" if "?ra \<noteq> []"
    using that iterator_deref_rest [OF a] iter_rest_Nil_iff [OF a] by simp
  have drb: "iterator_deref z b = Some (hd ?rb)" if "?rb \<noteq> []"
    using that iterator_deref_rest [OF b] iter_rest_Nil_iff [OF b] by simp
  show ?thesis
  proof (cases ?ra)
    case Nil
    with ne iter_rest_Nil_iff [OF a] iter_rest_Nil_iff [OF b] obtain y ys where
      rb: "?rb = y # ys" by (cases ?rb) auto
    with Nil have f: "fc = False" "sc = True" by (simp_all add: fc_def sc_def)
    have "double_deref z ?d = Some (fst y, dv, snd y)"
      using f drb rb da by (simp add: double_deref_def)
    moreover have "value_in ?ra dv (fst y) = dv" using Nil by (simp add: value_in_def)
    moreover have "value_in ?rb dv (fst y) = snd y" using rb by (simp add: value_in_hd)
    ultimately show ?thesis using f rb iter_rest_Nil_iff [OF b] by auto
  next
    case (Cons x xs)
    note ra = this
    show ?thesis
    proof (cases ?rb)
      case Nil
      with ra have f: "fc = True" "sc = False" by (simp_all add: fc_def sc_def)
      have "double_deref z ?d = Some (fst x, snd x, dv)"
        using f dra ra db by (simp add: double_deref_def)
      moreover have "value_in ?rb dv (fst x) = dv" using Nil by (simp add: value_in_def)
      moreover have "value_in ?ra dv (fst x) = snd x" using ra by (simp add: value_in_hd)
      ultimately show ?thesis using f ra iter_rest_Nil_iff [OF a] by auto
    next
      case (Cons y ys)
      note rb = this
      consider (same) "fst x = fst y" | (less) "fst x \<noteq> fst y" "entry_less Hasher x y"
        | (greater) "fst x \<noteq> fst y" "\<not> entry_less Hasher x y" by blast
      then show ?thesis
      proof cases
        case same
        with ra rb have f: "fc = True" "sc = True" by (simp_all add: fc_def sc_def)
        have "double_deref z ?d = Some (fst x, snd x, snd y)"
          using f dra drb ra rb by (simp add: double_deref_def)
        moreover have "value_in ?ra dv (fst x) = snd x" using ra by (simp add: value_in_hd)
        moreover have "value_in ?rb dv (fst x) = snd y" using rb same by (simp add: value_in_hd)
        ultimately show ?thesis
          using f ra rb same iter_rest_Nil_iff [OF a] iter_rest_Nil_iff [OF b] by auto
      next
        case less
        with ra rb have f: "fc = True" "sc = False" by (simp_all add: fc_def sc_def)
        have "double_deref z ?d = Some (fst x, snd x, dv)"
          using f dra ra db by (simp add: double_deref_def)
        moreover have "value_in ?ra dv (fst x) = snd x" using ra by (simp add: value_in_hd)
        moreover have "value_in ?rb dv (fst x) = dv"
          using key_notin_later [OF sb [unfolded rb] less(2)] rb by (simp add: value_in_notin)
        ultimately show ?thesis using f ra iter_rest_Nil_iff [OF a] by auto
      next
        case greater
        with ra rb have f: "fc = False" "sc = True" by (simp_all add: fc_def sc_def)
        from greater have yx: "entry_less Hasher y x" by (rule entry_less_total)
        have "double_deref z ?d = Some (fst y, dv, snd y)"
          using f drb rb da by (simp add: double_deref_def)
        moreover have "value_in ?rb dv (fst y) = snd y" using rb by (simp add: value_in_hd)
        moreover have "value_in ?ra dv (fst y) = dv"
          using key_notin_later [OF sa [unfolded ra] yx] ra by (simp add: value_in_notin)
        ultimately show ?thesis using f rb iter_rest_Nil_iff [OF b] by auto
      qed
    qed
  qed
qed

lemma equal_loop_spec:
  fixes z :: "('k::linorder, 'v) Zone"
  assumes ok: "zone_ok Hasher z" and e: "is_end (first_d e)" "is_end (second_d e)"
  shows "iter_ok z a \<Longrightarrow> iter_ok z b \<Longrightarrow> def_value_i a = dv \<Longrightarrow> def_value_i b = dv \<Longrightarrow>
    sorted_wrt (entry_less Hasher) (iter_rest z a) \<Longrightarrow>
    sorted_wrt (entry_less Hasher) (iter_rest z b) \<Longrightarrow>
    \<exists>d. double_iterator z a b = Some d \<and>
      equal_loop z d e =
        Some (\<forall>k. value_in (iter_rest z a) dv k = value_in (iter_rest z b) dv k)"
proof (induction "length (iter_rest z a) + length (iter_rest z b)" arbitrary: a b rule: less_induct)
  case less
  note a = less.prems(1) and b = less.prems(2) and da = less.prems(3) and db = less.prems(4)
    and sa = less.prems(5) and sb = less.prems(6)
  let ?ra = "iter_rest z a" and ?rb = "iter_rest z b"
  define fc where "fc = fst (zip_flags Hasher ?ra ?rb)"
  define sc where "sc = snd (zip_flags Hasher ?ra ?rb)"
  let ?d = "\<lparr>first_d = a, second_d = b, first_current_d = fc, second_current_d = sc\<rparr>"
  have d: "double_iterator z a b = Some ?d"
    using double_iterator_spec [OF ok a b] by (simp add: fc_def sc_def)
  have dn: "double_neq z ?d e = Some (\<not> is_end a \<or> \<not> is_end b)"
    using double_neq_end [OF e, of z ?d] by simp
  show ?case
  proof (cases "is_end a \<and> is_end b")
    case True
    then have "equal_loop z ?d e = Some True"
      by (subst equal_loop.simps) (simp add: dn)
    moreover from True have "?ra = []" "?rb = []" by (simp_all add: iter_rest_is_end)
    ultimately show ?thesis using d by simp
  next
    case False
    from double_deref_spec [OF ok a b sa sb da db False] obtain k0 va vb where
      dd: "double_deref z ?d = Some (k0, va, vb)"
      and va: "value_in ?ra dv k0 = va" and vb: "value_in ?rb dv k0 = vb"
      and f1: "fc \<longrightarrow> \<not> is_end a \<and> fst (hd ?ra) = k0" and f2: "\<not> fc \<longrightarrow> va = dv"
      and s1: "sc \<longrightarrow> \<not> is_end b \<and> fst (hd ?rb) = k0" and s2: "\<not> sc \<longrightarrow> vb = dv"
      and fs: "fc \<or> sc"
      unfolding fc_def sc_def by blast
    have loop: "equal_loop z ?d e =
        (if va \<noteq> vb then Some False
         else case double_inc z ?d of None \<Rightarrow> None | Some d1 \<Rightarrow> equal_loop z d1 e)"
      using False by (subst equal_loop.simps) (simp add: dn dd)
    show ?thesis
    proof (cases "va = vb")
      case False
      with va vb have "\<not> (\<forall>k. value_in ?ra dv k = value_in ?rb dv k)" by auto
      with loop False d show ?thesis by simp
    next
      case True
      from f2 va have na: "\<not> fc \<longrightarrow> value_in ?ra dv k0 = dv" by simp
      from s2 vb have nb: "\<not> sc \<longrightarrow> value_in ?rb dv k0 = dv" by simp
      from side_step [OF ok a sa da f1 na] obtain a' where
        a': "(if fc then iterator_inc z a else Some a) = Some a'" "iter_ok z a'"
          "def_value_i a' = dv" "sorted_wrt (entry_less Hasher) (iter_rest z a')"
          "length (iter_rest z a') \<le> length ?ra" "fc \<longrightarrow> length (iter_rest z a') < length ?ra"
          "\<forall>k. k \<noteq> k0 \<longrightarrow> value_in (iter_rest z a') dv k = value_in ?ra dv k"
          "value_in (iter_rest z a') dv k0 = dv" by blast
      from side_step [OF ok b sb db s1 nb] obtain b' where
        b': "(if sc then iterator_inc z b else Some b) = Some b'" "iter_ok z b'"
          "def_value_i b' = dv" "sorted_wrt (entry_less Hasher) (iter_rest z b')"
          "length (iter_rest z b') \<le> length ?rb" "sc \<longrightarrow> length (iter_rest z b') < length ?rb"
          "\<forall>k. k \<noteq> k0 \<longrightarrow> value_in (iter_rest z b') dv k = value_in ?rb dv k"
          "value_in (iter_rest z b') dv k0 = dv" by blast
      have inc: "double_inc z ?d = double_iterator z a' b'"
        using a'(1) b'(1) by (cases fc; cases sc) (simp_all add: double_inc_def)
      have "length (iter_rest z a') + length (iter_rest z b') < length ?ra + length ?rb"
        using a'(5,6) b'(5,6) fs by auto
      from less.hyps [OF this a'(2) b'(2) a'(3) b'(3) a'(4) b'(4)] obtain d1 where
        d1: "double_iterator z a' b' = Some d1"
        "equal_loop z d1 e =
           Some (\<forall>k. value_in (iter_rest z a') dv k = value_in (iter_rest z b') dv k)" by blast
      have "(\<forall>k. value_in (iter_rest z a') dv k = value_in (iter_rest z b') dv k) \<longleftrightarrow>
            (\<forall>k. value_in ?ra dv k = value_in ?rb dv k)"
      proof
        assume h: "\<forall>k. value_in (iter_rest z a') dv k = value_in (iter_rest z b') dv k"
        show "\<forall>k. value_in ?ra dv k = value_in ?rb dv k"
        proof
          fix k
          show "value_in ?ra dv k = value_in ?rb dv k"
          proof (cases "k = k0")
            case True with va vb \<open>va = vb\<close> show ?thesis by simp
          next
            case False with h a'(7) b'(7) show ?thesis by metis
          qed
        qed
      next
        assume h: "\<forall>k. value_in ?ra dv k = value_in ?rb dv k"
        show "\<forall>k. value_in (iter_rest z a') dv k = value_in (iter_rest z b') dv k"
        proof
          fix k
          show "value_in (iter_rest z a') dv k = value_in (iter_rest z b') dv k"
          proof (cases "k = k0")
            case True with a'(8) b'(8) show ?thesis by simp
          next
            case False with h a'(7) b'(7) show ?thesis by metis
          qed
        qed
      qed
      with loop True inc d1 d show ?thesis by simp
    qed
  qed
qed

lemma Zip_end_spec:
  "Zip_end z A B =
     Some \<lparr>first_d = map_end A, second_d = map_end B, first_current_d = True,
           second_current_d = True\<rparr>"
  by (simp add: Zip_end_def double_iterator_def map_end_def iterator_eq_def)

lemma map_equal_spec:
  fixes z :: "('k::linorder, 'v) Zone"
  assumes ok: "zone_ok Hasher z" and A: "map_in z A" and B: "map_in z B"
  shows "map_equal z A B =
     Some (tree_m A = tree_m B \<or>
           (def_value_m A = def_value_m B \<and> (\<forall>k. Get Hasher z A k = Get Hasher z B k)))"
proof (cases "tree_m A = tree_m B")
  case True
  then show ?thesis by (simp add: map_equal_def)
next
  case roots: False
  show ?thesis
  proof (cases "def_value_m A = def_value_m B")
    case False
    with roots show ?thesis by (simp add: map_equal_def)
  next
    case True
    let ?dv = "def_value_m A"
    let ?e = "\<lparr>first_d = map_end A, second_d = map_end B, first_current_d = True,
               second_current_d = True\<rparr>"
    from map_begin_spec [OF ok A] obtain a where
      a: "map_begin z A = Some a" "iter_ok z a" "def_value_i a = ?dv"
        "iter_rest z a = ptr_list z (tree_m A) 0" by blast
    from map_begin_spec [OF ok B] True obtain b where
      b: "map_begin z B = Some b" "iter_ok z b" "def_value_i b = ?dv"
        "iter_rest z b = ptr_list z (tree_m B) 0" by auto
    have sorted: "sorted_wrt (entry_less Hasher) (ptr_list z (tree_m m) 0)" if "map_in z m" for m
    proof (cases "tree_m m")
      case None then show ?thesis by simp
    next
      case (Some c)
      with that have "c < length z" by (simp add: map_in_def)
      from ptr_list_sorted [OF ok this] Some show ?thesis by simp
    qed
    have e: "is_end (first_d ?e)" "is_end (second_d ?e)" by (simp_all add: map_end_def)
    from equal_loop_spec [OF ok e a(2) b(2) a(3) b(3)] sorted [OF A] sorted [OF B] a(4) b(4)
    obtain d where d: "double_iterator z a b = Some d"
      "equal_loop z d ?e =
         Some (\<forall>k. value_in (ptr_list z (tree_m A) 0) ?dv k =
                    value_in (ptr_list z (tree_m B) 0) ?dv k)" by auto
    have "map_equal z A B = equal_loop z d ?e"
      using roots True a(1) b(1) d(1)
      by (simp add: map_equal_def Zip_begin_def Zip_end_spec)
    with d(2) True roots show ?thesis
      by (simp add: Get_value_in [OF ok A] Get_value_in [OF ok B])
  qed
qed

text \<open>C3 as amended (equality coherence): for two maps of a zone built by Add,
  \<^verbatim>\<open>A == B\<close> returns, and it returns true if and only if \<open>A\<close> and \<open>B\<close> have the same root
  pointer, or they have the same default value and \<open>A.Get(k) == B.Get(k)\<close> for every
  key \<open>k\<close>.\<close>

theorem equality_coherence:
  fixes z :: "('k::linorder, 'v) Zone"
  assumes "zone_built Hasher z" and "map_in z A" and "map_in z B"
  shows "map_equal z A B =
     Some (tree_m A = tree_m B \<or>
           (def_value_m A = def_value_m B \<and> (\<forall>k. Get Hasher z A k = Get Hasher z B k)))"
  using map_equal_spec [OF zone_built_ok [OF assms(1)] assms(2,3)] .

theorem equality_coherence_witness:
  "zone_built ex_Hasher ex_zone3 \<and> map_in ex_zone3 ex_map3 \<and> map_in ex_zone3 (PersistentMap 0) \<and>
   map_equal ex_zone3 ex_map3 (PersistentMap 0) = Some True \<and>
   tree_m ex_map3 \<noteq> tree_m (PersistentMap 0 :: int PersistentMap) \<and>
   def_value_m ex_map3 = def_value_m (PersistentMap 0 :: int PersistentMap) \<and>
   (\<forall>k. Get ex_Hasher ex_zone3 ex_map3 k = Get ex_Hasher ex_zone3 (PersistentMap 0) k)"
proof -
  have A: "map_in ex_zone3 ex_map3"
    by (simp add: map_in_def ex_map3_def ex_zone3_def ex_zone1_def)
  have B: "map_in ex_zone3 (PersistentMap 0)" by (simp add: map_in_def PersistentMap_def)
  have eq: "map_equal ex_zone3 ex_map3 (PersistentMap 0) = Some True" by code_simp
  have r: "tree_m ex_map3 \<noteq> tree_m (PersistentMap 0 :: int PersistentMap)"
    by (simp add: ex_map3_def PersistentMap_def)
  from equality_coherence [OF ex_built3 A B] eq r ex_built3 A B show ?thesis by simp
qed

end
